theory Spec2Isabelle
  imports Complex_Main "HOL-Library.AList"
begin

section \<open>Objects the host works with\<close>

text \<open>
  \<^verbatim>\<open>EmbeddedCompositeHost\<close> (embeddedCompositeHost.ts) keeps a \<^verbatim>\<open>Map\<close> from composite
  ids to entries, each entry pointing at three objects of the surrounding application: a
  \<^verbatim>\<open>PaneComposite\<close>, a DOM element and a \<^verbatim>\<open>DisposableStore\<close>. The objects live in
  an explicit store (\<open>world\<close>) and are named by references, so that the two names the
  code has for one object (the local variable \<^verbatim>\<open>disposables\<close> and the map entry's field)
  stay aliases in the model.
\<close>

type_synonym ident = string
type_synonym ref = nat

text \<open>\<^verbatim>\<open>Dimension\<close> of base/browser/dom: two JavaScript numbers, only passed along here.\<close>

datatype Dimension = Dimension (width: real) (height: real)

text \<open>
  The methods of a \<^verbatim>\<open>PaneComposite\<close> the two files call. A composite is code of the
  application, not of this repository: the model records every call made on it
  (\<open>calls\<close>) and lets each call either return or throw. \<open>faults c\<close> lists the calls
  on which composite \<open>c\<close> throws.
\<close>

datatype call = Create ref | UpdateStyles | SetVisible bool | Layout Dimension | Dispose

text \<open>
  What is thrown: by a method of a composite, by a descriptor's \<^verbatim>\<open>instantiate\<close>, by
  a call on \<^verbatim>\<open>undefined\<close>, by \<^verbatim>\<open>createInstance\<close>, and by a store whose members
  threw more than one error while it disposed them.
\<close>

datatype error =
  CompositeError ref call | InstantiationError | TypeError | CreateInstanceError
| AggregateError "error list"

record PaneComposite =
  oid :: ref
  faults :: "call list"

text \<open>
  \<^verbatim>\<open>descriptor.instantiate(...)\<close> either throws, returns nothing (the code tests
  \<^verbatim>\<open>if (!composite)\<close>) or returns a new composite.
\<close>

datatype instantiate_result = InstantiateThrows | InstantiateUndefined | InstantiateOk "call list"

record PaneCompositeDescriptor =
  descriptor_id :: ident
  instantiate :: instantiate_result

datatype ViewContainerLocation = Sidebar | Panel | AuxiliaryBar

datatype registry_id = Viewlets | Panels | Auxiliary

text \<open>
  An element of the document. The elements the program creates have references and point
  at their parent. The nodes the browser builds when markup is assigned to
  \<^verbatim>\<open>innerHTML\<close> have no reference in the program: they are kept as trees
  (\<open>childNodes\<close>) under the element they were parsed into.
\<close>

datatype node = TextNode string | ElementNode string "(string \<times> string) list" "node list"

record HTMLElement =
  classList :: "string list"
  elem_id :: string
  style_display :: string
  style_height :: string
  parentElement :: "ref option"
  childNodes :: "node list"

text \<open>
  Modelled from the spec: \<^verbatim>\<open>DisposableStore\<close> (base/common/lifecycle.js) is not under
  src/. The code relies on what claim C3 and the comment
  \<^verbatim>\<open>// This will dispose the composite\<close> spell out: \<^verbatim>\<open>add\<close> registers a member,
  \<^verbatim>\<open>dispose\<close> sets \<^verbatim>\<open>isDisposed\<close> and disposes every member once, and a second
  \<^verbatim>\<open>dispose\<close> does nothing. A member's \<^verbatim>\<open>dispose\<close> is a method of a composite
  like the others and may throw: the store then still disposes its other members and
  forgets them all, and throws afterwards, the error itself when there is one and an
  \<^verbatim>\<open>AggregateError\<close> when there are several.
\<close>

record DisposableStore =
  isDisposed :: bool
  toDispose :: "PaneComposite list"

record world =
  elements :: "ref \<rightharpoonup> HTMLElement"
  stores :: "ref \<rightharpoonup> DisposableStore"
  calls :: "(ref \<times> call) list"
  instantiations :: "ident list"
  fresh :: ref

text \<open>
  What the application answers: the pane composite registries
  (\<^verbatim>\<open>Registry.as(registryId)\<close>, \<open>None\<close> when no registry is known under that id, so
  that \<^verbatim>\<open>registry.getPaneComposite\<close> throws a TypeError) and the layout engine
  (\<^verbatim>\<open>getBoundingClientRect\<close>).
\<close>

record env =
  registry_as :: "registry_id \<Rightarrow> (ident \<Rightarrow> PaneCompositeDescriptor option) option"
  getBoundingClientRect :: "ref \<Rightarrow> Dimension"

record entry =
  composite :: PaneComposite
  entry_container :: ref
  disposables :: ref

text \<open>
  The fields of \<^verbatim>\<open>EmbeddedCompositeHost\<close>. \<open>composites\<close> is the JavaScript \<^verbatim>\<open>Map\<close>
  in insertion order (\<open>AList.update\<close> is \<^verbatim>\<open>Map.set\<close>, \<open>AList.delete\<close> is
  \<^verbatim>\<open>Map.delete\<close>).
\<close>

record EmbeddedCompositeHost =
  composites :: "(ident \<times> entry) list"
  currentCompositeId :: "ident option"
  creatingComposites :: "ident set"
  container :: ref
  location :: ViewContainerLocation

section \<open>DOM, DisposableStore and composite calls\<close>

definition update_element :: "ref \<Rightarrow> (HTMLElement \<Rightarrow> HTMLElement) \<Rightarrow> world \<Rightarrow> world" where
  "update_element r f w = w\<lparr>elements := (elements w)(r := map_option f (elements w r))\<rparr>"

definition createElement :: "world \<Rightarrow> ref \<times> world" where
  "createElement w =
     (fresh w,
      w\<lparr>elements := (elements w)(fresh w \<mapsto>
            \<lparr>classList = [], elem_id = [], style_display = [], style_height = [],
             parentElement = None, childNodes = []\<rparr>),
        fresh := Suc (fresh w)\<rparr>)"

definition appendChild :: "ref \<Rightarrow> ref \<Rightarrow> world \<Rightarrow> world" where
  "appendChild parent child w = update_element child (\<lambda>e. e\<lparr>parentElement := Some parent\<rparr>) w"

definition remove_element :: "ref \<Rightarrow> world \<Rightarrow> world" where
  "remove_element r w = update_element r (\<lambda>e. e\<lparr>parentElement := None\<rparr>) w"

definition parent_of :: "world \<Rightarrow> ref \<Rightarrow> ref option" where
  "parent_of w r = (case elements w r of None \<Rightarrow> None | Some e \<Rightarrow> parentElement e)"

definition display_of :: "world \<Rightarrow> ref \<Rightarrow> string option" where
  "display_of w r = map_option style_display (elements w r)"

definition childNodes_of :: "world \<Rightarrow> ref \<Rightarrow> node list option" where
  "childNodes_of w r = map_option childNodes (elements w r)"

definition new_DisposableStore :: "world \<Rightarrow> ref \<times> world" where
  "new_DisposableStore w =
     (fresh w,
      w\<lparr>stores := (stores w)(fresh w \<mapsto> \<lparr>isDisposed = False, toDispose = []\<rparr>),
        fresh := Suc (fresh w)\<rparr>)"

definition store_add :: "ref \<Rightarrow> PaneComposite \<Rightarrow> world \<Rightarrow> world" where
  "store_add s c w =
     (case stores w s of
        None \<Rightarrow> w
      | Some st \<Rightarrow>
          if isDisposed st then w
          else w\<lparr>stores := (stores w)(s \<mapsto> st\<lparr>toDispose := toDispose st @ [c]\<rparr>)\<rparr>)"

text \<open>One call of a composite's method: it is recorded, and throws when the composite says so.\<close>

definition invoke :: "PaneComposite \<Rightarrow> call \<Rightarrow> world \<Rightarrow> (error + unit) \<times> world" where
  "invoke c k w =
     (if k \<in> set (faults c) then Inl (CompositeError (oid c) k) else Inr (),
      w\<lparr>calls := calls w @ [(oid c, k)]\<rparr>)"

text \<open>
  The function \<^verbatim>\<open>dispose(iterable)\<close> of lifecycle.js: every member is disposed, the
  errors are collected.
\<close>

fun dispose_members :: "PaneComposite list \<Rightarrow> world \<Rightarrow> error list \<times> world" where
  "dispose_members [] w = ([], w)"
| "dispose_members (c # cs) w =
     (case invoke c Dispose w of
        (r, w1) \<Rightarrow>
          (case dispose_members cs w1 of
             (errors, w2) \<Rightarrow> ((case r of Inl x \<Rightarrow> [x] | Inr _ \<Rightarrow> []) @ errors, w2)))"

definition store_dispose :: "ref \<Rightarrow> world \<Rightarrow> (error + unit) \<times> world" where
  "store_dispose s w =
     (case stores w s of
        None \<Rightarrow> (Inr (), w)
      | Some st \<Rightarrow>
          if isDisposed st then (Inr (), w)
          else
            (case dispose_members (toDispose st)
                    (w\<lparr>stores := (stores w)(s \<mapsto> \<lparr>isDisposed = True, toDispose = []\<rparr>)\<rparr>) of
               (errors, w1) \<Rightarrow>
                 (case errors of
                    [] \<Rightarrow> Inr ()
                  | [x] \<Rightarrow> Inl x
                  | _ \<Rightarrow> Inl (AggregateError errors),
                  w1)))"

definition store_isDisposed :: "world \<Rightarrow> ref \<Rightarrow> bool" where
  "store_isDisposed w s = (case stores w s of None \<Rightarrow> False | Some st \<Rightarrow> isDisposed st)"

text \<open>
  JavaScript truthiness of a \<^verbatim>\<open>string | undefined\<close>, as tested by
  \<^verbatim>\<open>if (this.currentCompositeId)\<close>: \<^verbatim>\<open>undefined\<close> and the empty string are falsy.
\<close>

fun truthy :: "string option \<Rightarrow> bool" where
  "truthy None = False"
| "truthy (Some s) = (s \<noteq> [])"

section \<open>EmbeddedCompositeHost\<close>

text \<open>The constructor (lines 24-33).\<close>

definition new_EmbeddedCompositeHost ::
  "ref \<Rightarrow> ViewContainerLocation \<Rightarrow> world \<Rightarrow> EmbeddedCompositeHost \<times> world" where
  "new_EmbeddedCompositeHost c loc w =
     (\<lparr>composites = [], currentCompositeId = None, creatingComposites = {},
       container = c, location = loc\<rparr>,
      update_element c
        (\<lambda>e. if ''embedded-composite-host'' \<in> set (classList e) then e
             else e\<lparr>classList := classList e @ [''embedded-composite-host'']\<rparr>) w)"

text \<open>\<^verbatim>\<open>hideComposite\<close> (lines 205-214).\<close>

definition hideComposite ::
  "ident \<Rightarrow> EmbeddedCompositeHost \<Rightarrow> world \<Rightarrow> (error + unit) \<times> world" where
  "hideComposite compositeId h w =
     (case map_of (composites h) compositeId of
        None \<Rightarrow> (Inr (), w)
      | Some e \<Rightarrow>
          (case invoke (composite e) (SetVisible False) w of
             (Inl x, w1) \<Rightarrow> (Inl x, w1)
           | (Inr _, w1) \<Rightarrow>
               (Inr (),
                update_element (entry_container e) (\<lambda>d. d\<lparr>style_display := ''none''\<rparr>) w1)))"

text \<open>\<^verbatim>\<open>showComposite\<close> (lines 182-203).\<close>

definition showComposite ::
  "env \<Rightarrow> ident \<Rightarrow> EmbeddedCompositeHost \<Rightarrow> world
     \<Rightarrow> (error + unit) \<times> EmbeddedCompositeHost \<times> world" where
  "showComposite ev compositeId h w =
     (case map_of (composites h) compositeId of
        None \<Rightarrow> (Inr (), h, w)
      | Some e \<Rightarrow>
          (case (case currentCompositeId h of
                   None \<Rightarrow> (Inr (), w)
                 | Some cur \<Rightarrow>
                     if cur \<noteq> [] \<and> cur \<noteq> compositeId then hideComposite cur h w
                     else (Inr (), w)) of
             (Inl x, w1) \<Rightarrow> (Inl x, h, w1)
           | (Inr _, w1) \<Rightarrow>
               (case invoke (composite e) (SetVisible True)
                       (update_element (entry_container e)
                          (\<lambda>d. d\<lparr>style_display := ''block'', style_height := ''100%''\<rparr>) w1) of
                  (Inl x, w2) \<Rightarrow> (Inl x, h, w2)
                | (Inr _, w2) \<Rightarrow>
                    (case invoke (composite e)
                            (Layout (getBoundingClientRect ev (container h))) w2 of
                       (Inl x, w3) \<Rightarrow> (Inl x, h, w3)
                     | (Inr _, w3) \<Rightarrow>
                         (Inr (), h\<lparr>currentCompositeId := Some compositeId\<rparr>, w3)))))"

text \<open>\<^verbatim>\<open>createComposite\<close> (lines 163-180): the descriptor instantiates the composite.\<close>

definition createComposite ::
  "PaneCompositeDescriptor \<Rightarrow> world \<Rightarrow> (error + PaneComposite option) \<times> world" where
  "createComposite d w =
     (let w1 = w\<lparr>instantiations := instantiations w @ [descriptor_id d]\<rparr> in
      case instantiate d of
        InstantiateThrows \<Rightarrow> (Inl InstantiationError, w1)
      | InstantiateUndefined \<Rightarrow> (Inr None, w1)
      | InstantiateOk fs \<Rightarrow>
          (Inr (Some \<lparr>oid = fresh w1, faults = fs\<rparr>), w1\<lparr>fresh := Suc (fresh w1)\<rparr>))"

text \<open>
  \<^verbatim>\<open>openComposite\<close> (lines 35-161) is an \<^verbatim>\<open>async\<close> function with one
  \<^verbatim>\<open>await\<close> (line 103). Everything up to and including the call of
  \<^verbatim>\<open>createComposite\<close> runs when \<^verbatim>\<open>openComposite\<close> is called
  (\<open>openComposite_begin\<close>); the rest runs later, when the awaited promise is settled
  (\<open>openComposite_resume\<close>), and other calls on the host may run in between.
\<close>

datatype progress =
  Returned "PaneComposite option"
| Awaiting "error + PaneComposite option"

text \<open>
  Lines 44-52 and, word for word again, lines 76-84: an entry whose store is not disposed
  is shown and its composite returned (\<open>Some\<close> of the outcome); an entry whose store is
  disposed is deleted from the map and the function goes on (\<open>None\<close>).
\<close>

definition reuse_existing ::
  "env \<Rightarrow> ident \<Rightarrow> EmbeddedCompositeHost \<Rightarrow> world
     \<Rightarrow> (error + PaneComposite) option \<times> EmbeddedCompositeHost \<times> world" where
  "reuse_existing ev compositeId h w =
     (case map_of (composites h) compositeId of
        None \<Rightarrow> (None, h, w)
      | Some existing \<Rightarrow>
          if \<not> store_isDisposed w (disposables existing) then
            (case showComposite ev compositeId h w of
               (Inl x, h1, w1) \<Rightarrow> (Some (Inl x), h1, w1)
             | (Inr _, h1, w1) \<Rightarrow> (Some (Inr (composite existing)), h1, w1))
          else (None, h\<lparr>composites := AList.delete compositeId (composites h)\<rparr>, w))"

text \<open>The \<^verbatim>\<open>switch\<close> of lines 60-73.\<close>

fun registryId_of :: "ViewContainerLocation \<Rightarrow> registry_id" where
  "registryId_of Panel = Panels"
| "registryId_of AuxiliaryBar = Auxiliary"
| "registryId_of Sidebar = Viewlets"

text \<open>Lines 86-103: the descriptor is looked up, the id marked as creating, the composite instantiated.\<close>

definition lookup_and_instantiate ::
  "env \<Rightarrow> ident \<Rightarrow> EmbeddedCompositeHost \<Rightarrow> world
     \<Rightarrow> (error + progress) \<times> EmbeddedCompositeHost \<times> world" where
  "lookup_and_instantiate ev compositeId h w =
     (case registry_as ev (registryId_of (location h)) of
        None \<Rightarrow> (Inl TypeError, h, w)
      | Some registry \<Rightarrow>
          (case registry compositeId of
             None \<Rightarrow> (Inr (Returned None), h, w)
           | Some descriptor \<Rightarrow>
               (case createComposite descriptor w of
                  (r, w1) \<Rightarrow>
                    (Inr (Awaiting r),
                     h\<lparr>creatingComposites := insert compositeId (creatingComposites h)\<rparr>,
                     w1))))"

text \<open>Lines 55-93, after the test of line 43 did not return.\<close>

definition hide_and_open ::
  "env \<Rightarrow> ident \<Rightarrow> EmbeddedCompositeHost \<Rightarrow> world
     \<Rightarrow> (error + progress) \<times> EmbeddedCompositeHost \<times> world" where
  "hide_and_open ev compositeId h w =
     (case (case currentCompositeId h of
              None \<Rightarrow> (Inr (), w)
            | Some cur \<Rightarrow> if cur \<noteq> [] then hideComposite cur h w else (Inr (), w)) of
        (Inl x, w1) \<Rightarrow> (Inl x, h, w1)
      | (Inr _, w1) \<Rightarrow>
          (case reuse_existing ev compositeId h w1 of
             (Some (Inl x), h2, w2) \<Rightarrow> (Inl x, h2, w2)
           | (Some (Inr c), h2, w2) \<Rightarrow> (Inr (Returned (Some c)), h2, w2)
           | (None, h2, w2) \<Rightarrow> lookup_and_instantiate ev compositeId h2 w2))"

definition openComposite_begin ::
  "env \<Rightarrow> ident \<Rightarrow> EmbeddedCompositeHost \<Rightarrow> world
     \<Rightarrow> (error + progress) \<times> EmbeddedCompositeHost \<times> world" where
  "openComposite_begin ev compositeId h w =
     (if compositeId \<in> creatingComposites h then (Inr (Returned None), h, w)
      else if currentCompositeId h = Some compositeId then
        (case reuse_existing ev compositeId h w of
           (Some (Inl x), h1, w1) \<Rightarrow> (Inl x, h1, w1)
         | (Some (Inr c), h1, w1) \<Rightarrow> (Inr (Returned (Some c)), h1, w1)
         | (None, h1, w1) \<Rightarrow> hide_and_open ev compositeId h1 w1)
      else hide_and_open ev compositeId h w)"

text \<open>
  The \<^verbatim>\<open>catch\<close> of lines 145-156, for the store and the element made so far (if any):
  it returns \<^verbatim>\<open>undefined\<close>, unless \<^verbatim>\<open>disposables.dispose()\<close> throws, and then
  the element is not looked at.
\<close>

definition cleanup ::
  "ref option \<Rightarrow> ref option \<Rightarrow> world \<Rightarrow> (error + PaneComposite option) \<times> world" where
  "cleanup disposables_opt compositeContainer_opt w =
     (case (case disposables_opt of None \<Rightarrow> (Inr (), w) | Some s \<Rightarrow> store_dispose s w) of
        (Inl x, w1) \<Rightarrow> (Inl x, w1)
      | (Inr _, w1) \<Rightarrow>
          (Inr None,
           case compositeContainer_opt of
             None \<Rightarrow> w1
           | Some el \<Rightarrow> if parent_of w1 el \<noteq> None then remove_element el w1 else w1))"

text \<open>
  Lines 121-131: the inner \<^verbatim>\<open>try\<close>. Its \<^verbatim>\<open>catch\<close> disposes the store, removes
  the element and rethrows; when the store's \<^verbatim>\<open>dispose\<close> throws, that error leaves
  the \<^verbatim>\<open>catch\<close> instead and the element is not removed.
\<close>

definition create_ui ::
  "PaneComposite \<Rightarrow> ref \<Rightarrow> ref \<Rightarrow> world \<Rightarrow> (error + unit) \<times> world" where
  "create_ui c s el w =
     (case (case invoke c (Create el) w of
              (Inl x, w1) \<Rightarrow> (Inl x, w1)
            | (Inr _, w1) \<Rightarrow> invoke c UpdateStyles w1) of
        (Inl createError, w2) \<Rightarrow>
          (case store_dispose s w2 of
             (Inl x, w3) \<Rightarrow> (Inl x, w3)
           | (Inr _, w3) \<Rightarrow> (Inl createError, remove_element el w3))
      | (Inr _, w2) \<Rightarrow> (Inr (), w2))"

text \<open>Lines 109-156, for a composite that was instantiated.\<close>

definition create_and_show ::
  "env \<Rightarrow> ident \<Rightarrow> PaneComposite \<Rightarrow> EmbeddedCompositeHost \<Rightarrow> world
     \<Rightarrow> (error + PaneComposite option) \<times> EmbeddedCompositeHost \<times> world" where
  "create_and_show ev compositeId c h w =
     (case new_DisposableStore w of
        (s, w1) \<Rightarrow>
          (case createElement (store_add s c w1) of
             (el, w2) \<Rightarrow>
               (case create_ui c s el
                       (update_element el
                          (\<lambda>d. d\<lparr>classList := [''composite'', ''embedded-composite''],
                                 elem_id := compositeId, style_display := ''none''\<rparr>) w2) of
                  (Inl x, w3) \<Rightarrow>
                    (case cleanup (Some s) (Some el) w3 of (res, w4) \<Rightarrow> (res, h, w4))
                | (Inr _, w3) \<Rightarrow>
                    (case showComposite ev compositeId
                            (h\<lparr>composites :=
                                 AList.update compositeId
                                   \<lparr>composite = c, entry_container = el, disposables = s\<rparr>
                                   (composites h)\<rparr>)
                            (appendChild (container h) el w3) of
                       (Inl x, h1, w4) \<Rightarrow>
                         (case cleanup (Some s) (Some el) w4 of (res, w5) \<Rightarrow> (res, h1, w5))
                     | (Inr _, h1, w4) \<Rightarrow> (Inr (Some c), h1, w4)))))"

text \<open>
  Lines 103-160 from the moment the awaited promise is settled with \<open>r\<close>; the
  \<^verbatim>\<open>finally\<close> removes the id from the creating set on every path, also when the
  \<^verbatim>\<open>catch\<close> throws.
\<close>

definition openComposite_resume ::
  "env \<Rightarrow> ident \<Rightarrow> error + PaneComposite option \<Rightarrow> EmbeddedCompositeHost \<Rightarrow> world
     \<Rightarrow> (error + PaneComposite option) \<times> EmbeddedCompositeHost \<times> world" where
  "openComposite_resume ev compositeId r h w =
     (case (case r of
              Inl x \<Rightarrow> (case cleanup None None w of (res, w1) \<Rightarrow> (res, h, w1))
            | Inr None \<Rightarrow> (Inr None, h, w)
            | Inr (Some c) \<Rightarrow> create_and_show ev compositeId c h w) of
        (res, h1, w1) \<Rightarrow>
          (res, h1\<lparr>creatingComposites := creatingComposites h1 - {compositeId}\<rparr>, w1))"

text \<open>
  \<^verbatim>\<open>await host.openComposite(id)\<close> with nothing else running on the host while the
  promise is pending.
\<close>

definition openComposite ::
  "env \<Rightarrow> ident \<Rightarrow> EmbeddedCompositeHost \<Rightarrow> world
     \<Rightarrow> (error + PaneComposite option) \<times> EmbeddedCompositeHost \<times> world" where
  "openComposite ev compositeId h w =
     (case openComposite_begin ev compositeId h w of
        (Inl x, h1, w1) \<Rightarrow> (Inl x, h1, w1)
      | (Inr (Returned r), h1, w1) \<Rightarrow> (Inr r, h1, w1)
      | (Inr (Awaiting r), h1, w1) \<Rightarrow> openComposite_resume ev compositeId r h1 w1)"

text \<open>\<^verbatim>\<open>disposeComposite\<close> (lines 216-235).\<close>

definition disposeComposite ::
  "ident \<Rightarrow> EmbeddedCompositeHost \<Rightarrow> world
     \<Rightarrow> (error + unit) \<times> EmbeddedCompositeHost \<times> world" where
  "disposeComposite compositeId h w =
     (case map_of (composites h) compositeId of
        None \<Rightarrow> (Inr (), h, w)
      | Some e \<Rightarrow>
          (case (if currentCompositeId h = Some compositeId
                 then (case hideComposite compositeId h w of
                         (Inl x, w1) \<Rightarrow> (Inl x, h, w1)
                       | (Inr _, w1) \<Rightarrow> (Inr (), h\<lparr>currentCompositeId := None\<rparr>, w1))
                 else (Inr (), h, w)) of
             (Inl x, h1, w1) \<Rightarrow> (Inl x, h1, w1)
           | (Inr _, h1, w1) \<Rightarrow>
               (case invoke (composite e) (SetVisible False) w1 of
                  (Inl x, w2) \<Rightarrow> (Inl x, h1, w2)
                | (Inr _, w2) \<Rightarrow>
                    (case store_dispose (disposables e) w2 of
                       (Inl x, w3) \<Rightarrow> (Inl x, h1, w3)
                     | (Inr _, w3) \<Rightarrow>
                         (Inr (),
                          h1\<lparr>composites := AList.delete compositeId (composites h1)\<rparr>,
                          remove_element (entry_container e) w3)))))"

text \<open>\<^verbatim>\<open>layout\<close> (lines 237-244).\<close>

definition layout :: "Dimension \<Rightarrow> EmbeddedCompositeHost \<Rightarrow> world \<Rightarrow> (error + unit) \<times> world" where
  "layout dimension h w =
     (case currentCompositeId h of
        None \<Rightarrow> (Inr (), w)
      | Some cur \<Rightarrow>
          if cur \<noteq> [] then
            (case map_of (composites h) cur of
               None \<Rightarrow> (Inr (), w)
             | Some e \<Rightarrow> invoke (composite e) (Layout dimension) w)
          else (Inr (), w))"

text \<open>
  \<^verbatim>\<open>dispose\<close> (lines 246-256). The loop runs over the entries in the map's order and
  stops at the first call that throws; \<^verbatim>\<open>super.dispose()\<close> has nothing registered by
  this class to dispose.
\<close>

fun dispose_entries :: "(ident \<times> entry) list \<Rightarrow> world \<Rightarrow> (error + unit) \<times> world" where
  "dispose_entries [] w = (Inr (), w)"
| "dispose_entries ((k, e) # es) w =
     (case invoke (composite e) (SetVisible False) w of
        (Inl x, w1) \<Rightarrow> (Inl x, w1)
      | (Inr _, w1) \<Rightarrow>
          (case store_dispose (disposables e) w1 of
             (Inl x, w2) \<Rightarrow> (Inl x, w2)
           | (Inr _, w2) \<Rightarrow> dispose_entries es (remove_element (entry_container e) w2)))"

definition dispose ::
  "EmbeddedCompositeHost \<Rightarrow> world \<Rightarrow> (error + unit) \<times> EmbeddedCompositeHost \<times> world" where
  "dispose h w =
     (case dispose_entries (composites h) w of
        (Inl x, w1) \<Rightarrow> (Inl x, h, w1)
      | (Inr _, w1) \<Rightarrow> (Inr (), h\<lparr>composites := []\<rparr>, w1))"

section \<open>Runs of a host\<close>

text \<open>
  A configuration is the host, the world and the calls of \<^verbatim>\<open>openComposite\<close> that are
  suspended at their \<^verbatim>\<open>await\<close>, each with the id it was called for and the outcome
  its promise will be settled with. A host starts from its constructor, for a container
  element \<open>host_el\<close>, and moves by the calls of its public methods; a suspended
  \<^verbatim>\<open>openComposite\<close> may resume between any two of them.
\<close>

type_synonym pending = "(ident \<times> (error + PaneComposite option)) list"

inductive reachable ::
  "env \<Rightarrow> ref \<Rightarrow> EmbeddedCompositeHost \<times> world \<times> pending \<Rightarrow> bool"
  for ev :: env and host_el :: ref where
  constructed:
    "elements w0 host_el \<noteq> None \<Longrightarrow> host_el < fresh w0 \<Longrightarrow>
     new_EmbeddedCompositeHost host_el loc w0 = (h, w) \<Longrightarrow>
     reachable ev host_el (h, w, [])"
| opened:
    "reachable ev host_el (h, w, ps) \<Longrightarrow>
     openComposite_begin ev k h w = (r, h', w') \<Longrightarrow>
     reachable ev host_el (h', w', ps @ (case r of Inr (Awaiting a) \<Rightarrow> [(k, a)] | _ \<Rightarrow> []))"
| resumed:
    "reachable ev host_el (h, w, ps1 @ (k, a) # ps2) \<Longrightarrow>
     openComposite_resume ev k a h w = (res, h', w') \<Longrightarrow>
     reachable ev host_el (h', w', ps1 @ ps2)"
| composite_disposed:
    "reachable ev host_el (h, w, ps) \<Longrightarrow>
     disposeComposite k h w = (r, h', w') \<Longrightarrow>
     reachable ev host_el (h', w', ps)"
| laid_out:
    "reachable ev host_el (h, w, ps) \<Longrightarrow>
     layout d h w = (r, w') \<Longrightarrow>
     reachable ev host_el (h, w', ps)"
| disposed:
    "reachable ev host_el (h, w, ps) \<Longrightarrow>
     dispose h w = (r, h', w') \<Longrightarrow>
     reachable ev host_el (h', w', ps)"

text \<open>The calls made on composites between two worlds.\<close>

definition new_calls :: "world \<Rightarrow> world \<Rightarrow> (ref \<times> call) list" where
  "new_calls w w' = drop (length (calls w)) (calls w')"

text \<open>
  What "only hidden" means for an entry: \<^verbatim>\<open>setVisible(false)\<close> was called on its
  composite and its element has \<^verbatim>\<open>display: none\<close>, while its store is what it was
  (so not disposed by this step) and its element has the parent it had (so was not removed).
\<close>

definition only_hidden :: "entry \<Rightarrow> world \<Rightarrow> world \<Rightarrow> bool" where
  "only_hidden e w w' \<longleftrightarrow>
     (oid (composite e), SetVisible False) \<in> set (new_calls w w') \<and>
     display_of w' (entry_container e) = Some ''none'' \<and>
     stores w' (disposables e) = stores w (disposables e) \<and>
     parent_of w' (entry_container e) = parent_of w (entry_container e)"

text \<open>
  When \<^verbatim>\<open>showComposite\<close> throws for an entry \<open>e\<close> of the id: when one of the
  composite methods it calls does. These are \<^verbatim>\<open>setVisible(false)\<close> of the current
  composite, if that one is hidden first (lines 189-191: the current id is truthy, is
  another id and has an entry), and \<^verbatim>\<open>setVisible(true)\<close> and \<^verbatim>\<open>layout\<close> of the
  entry's composite. That \<^verbatim>\<open>showComposite\<close> throws exactly then is lemma
  \<open>showComposite_result\<close>.
\<close>

definition show_throws :: "env \<Rightarrow> ident \<Rightarrow> entry \<Rightarrow> EmbeddedCompositeHost \<Rightarrow> bool" where
  "show_throws ev compositeId e h \<longleftrightarrow>
     (case currentCompositeId h of
        None \<Rightarrow> False
      | Some cur \<Rightarrow>
          cur \<noteq> [] \<and> cur \<noteq> compositeId \<and>
          (case map_of (composites h) cur of
             None \<Rightarrow> False
           | Some previous \<Rightarrow> SetVisible False \<in> set (faults (composite previous)))) \<or>
     SetVisible True \<in> set (faults (composite e)) \<or>
     Layout (getBoundingClientRect ev (container h)) \<in> set (faults (composite e))"

section \<open>How worlds change\<close>

text \<open>
  Three relations between the world before and after a piece of code, from the strictest
  to the loosest: \<open>frame\<close> (only styles change and calls are made), \<open>keeps_below n\<close>
  (objects with a reference below \<open>n\<close> keep their store contents, their parent and
  their child nodes) and \<open>evolves\<close> (a store stays as it is or is disposed, elements
  stay).
\<close>

definition frame :: "world \<Rightarrow> world \<Rightarrow> bool" where
  "frame w w' \<longleftrightarrow>
     stores w' = stores w \<and> fresh w' = fresh w \<and> instantiations w' = instantiations w \<and>
     (\<forall>x. (elements w' x = None) = (elements w x = None)) \<and>
     (\<forall>x. parent_of w' x = parent_of w x) \<and>
     (\<forall>x. childNodes_of w' x = childNodes_of w x) \<and>
     (\<exists>cs. calls w' = calls w @ cs)"

definition keeps_below :: "nat \<Rightarrow> world \<Rightarrow> world \<Rightarrow> bool" where
  "keeps_below n w w' \<longleftrightarrow>
     fresh w \<le> fresh w' \<and>
     (\<forall>s. s < n \<longrightarrow> stores w' s = stores w s) \<and>
     (\<forall>x. x < n \<longrightarrow> parent_of w' x = parent_of w x \<and>
                      childNodes_of w' x = childNodes_of w x \<and>
                      (elements w' x = None) = (elements w x = None)) \<and>
     (\<exists>cs. calls w' = calls w @ cs)"

definition store_le :: "DisposableStore \<Rightarrow> DisposableStore \<Rightarrow> bool" where
  "store_le st st' \<longleftrightarrow>
     (isDisposed st \<longrightarrow> isDisposed st') \<and>
     (isDisposed st' \<or> toDispose st' = toDispose st)"

definition evolves :: "world \<Rightarrow> world \<Rightarrow> bool" where
  "evolves w w' \<longleftrightarrow>
     fresh w \<le> fresh w' \<and>
     (\<forall>x. x < fresh w \<and> elements w x \<noteq> None \<longrightarrow> elements w' x \<noteq> None) \<and>
     (\<forall>s st. s < fresh w \<and> stores w s = Some st \<longrightarrow>
        (\<exists>st'. stores w' s = Some st' \<and> store_le st st')) \<and>
     (\<exists>cs. calls w' = calls w @ cs)"

section \<open>The invariant of a host\<close>

text \<open>
  An entry is sound when its three objects exist, were allocated before now, and its store
  is disposed or holds the composite and nothing else.
\<close>

definition entry_ok :: "world \<Rightarrow> entry \<Rightarrow> bool" where
  "entry_ok w e \<longleftrightarrow>
     oid (composite e) < fresh w \<and> entry_container e < fresh w \<and> disposables e < fresh w \<and>
     elements w (entry_container e) \<noteq> None \<and>
     (\<exists>st. stores w (disposables e) = Some st \<and>
        (isDisposed st \<or> toDispose st = [composite e]))"

text \<open>
  The map has one entry per key, every entry is sound, and no two entries share a
  composite, an element or a store.
\<close>

definition entries_inv :: "(ident \<times> entry) list \<Rightarrow> world \<Rightarrow> bool" where
  "entries_inv cs w \<longleftrightarrow>
     distinct (map fst cs) \<and>
     (\<forall>k e. map_of cs k = Some e \<longrightarrow> entry_ok w e) \<and>
     (\<forall>k k' e e'. map_of cs k = Some e \<and> map_of cs k' = Some e' \<and>
        (entry_container e = entry_container e' \<or>
         oid (composite e) = oid (composite e') \<or>
         disposables e = disposables e') \<longrightarrow> k = k')"

text \<open>
  The creating set holds exactly the ids of the suspended calls, one call per id; an id
  that is being created has no entry; and the composites the suspended calls wait for are
  new ones.
\<close>

definition pending_inv :: "EmbeddedCompositeHost \<Rightarrow> world \<Rightarrow> pending \<Rightarrow> bool" where
  "pending_inv h w ps \<longleftrightarrow>
     creatingComposites h = fst ` set ps \<and> distinct (map fst ps) \<and>
     (\<forall>k. k \<in> fst ` set ps \<longrightarrow> map_of (composites h) k = None) \<and>
     (\<forall>k c. (k, Inr (Some c)) \<in> set ps \<longrightarrow>
        oid c < fresh w \<and>
        (\<forall>k' e. map_of (composites h) k' = Some e \<longrightarrow> oid (composite e) \<noteq> oid c) \<and>
        (\<forall>k' c'. (k', Inr (Some c')) \<in> set ps \<and> oid c' = oid c \<longrightarrow> k' = k))"

definition host_inv :: "ref \<Rightarrow> EmbeddedCompositeHost \<times> world \<times> pending \<Rightarrow> bool" where
  "host_inv host_el cfg =
     (case cfg of
        (h, w, ps) \<Rightarrow>
          container h = host_el \<and> host_el < fresh w \<and> elements w host_el \<noteq> None \<and>
          entries_inv (composites h) w \<and> pending_inv h w ps)"

section \<open>A concrete host\<close>

text \<open>
  A document with one element (reference 0) and a sidebar registry with a few viewlets:
  two that work, one registered under the empty id, one whose \<^verbatim>\<open>updateStyles\<close> throws,
  one whose first \<^verbatim>\<open>layout\<close> throws, one whose \<^verbatim>\<open>setVisible(false)\<close> throws, one
  whose \<^verbatim>\<open>setVisible(true)\<close> and \<^verbatim>\<open>dispose\<close> throw, one whose constructor throws
  and one whose descriptor yields nothing.
\<close>

definition ex_element :: HTMLElement where
  "ex_element =
     \<lparr>classList = [], elem_id = [], style_display = [], style_height = [],
      parentElement = None, childNodes = []\<rparr>"

definition ex_world :: world where
  "ex_world =
     \<lparr>elements = [0 \<mapsto> ex_element], stores = Map.empty, calls = [],
      instantiations = [], fresh = 1\<rparr>"

definition ex_registry :: "ident \<Rightarrow> PaneCompositeDescriptor option" where
  "ex_registry i =
     map_option (\<lambda>r. \<lparr>descriptor_id = i, instantiate = r\<rparr>)
       (map_of
          [(''workbench.view.explorer'', InstantiateOk []),
           (''workbench.view.search'', InstantiateOk []),
           ([], InstantiateOk []),
           (''broken.styles'', InstantiateOk [UpdateStyles]),
           (''broken.layout'', InstantiateOk [Layout (Dimension 300 600)]),
           (''broken.hide'', InstantiateOk [SetVisible False]),
           (''broken.show.dispose'', InstantiateOk [SetVisible True, Dispose]),
           (''broken.constructor'', InstantiateThrows),
           (''broken.descriptor'', InstantiateUndefined)] i)"

definition ex_env :: env where
  "ex_env =
     \<lparr>registry_as = (\<lambda>r. if r = Viewlets then Some ex_registry else None),
      getBoundingClientRect = (\<lambda>_. Dimension 300 600)\<rparr>"

definition ex_host :: EmbeddedCompositeHost where
  "ex_host = fst (new_EmbeddedCompositeHost 0 Sidebar ex_world)"

definition ex_world0 :: world where
  "ex_world0 = snd (new_EmbeddedCompositeHost 0 Sidebar ex_world)"

text \<open>
  The host while \<^verbatim>\<open>openComposite(k)\<close>, called on the new host, is suspended at its
  \<^verbatim>\<open>await\<close>, and after that call has finished.
\<close>

definition ex_pending_host :: "ident \<Rightarrow> EmbeddedCompositeHost" where
  "ex_pending_host k = fst (snd (openComposite_begin ex_env k ex_host ex_world0))"

definition ex_pending_world :: "ident \<Rightarrow> world" where
  "ex_pending_world k = snd (snd (openComposite_begin ex_env k ex_host ex_world0))"

definition ex_opened_host :: "ident \<Rightarrow> EmbeddedCompositeHost" where
  "ex_opened_host k = fst (snd (openComposite ex_env k ex_host ex_world0))"

definition ex_opened_world :: "ident \<Rightarrow> world" where
  "ex_opened_world k = snd (snd (openComposite ex_env k ex_host ex_world0))"

text \<open>The host after \<^verbatim>\<open>openComposite(k1)\<close> and then \<^verbatim>\<open>openComposite(k2)\<close>.\<close>

definition ex_second_host :: "ident \<Rightarrow> ident \<Rightarrow> EmbeddedCompositeHost" where
  "ex_second_host k1 k2 =
     fst (snd (openComposite ex_env k2 (ex_opened_host k1) (ex_opened_world k1)))"

definition ex_second_world :: "ident \<Rightarrow> ident \<Rightarrow> world" where
  "ex_second_world k1 k2 =
     snd (snd (openComposite ex_env k2 (ex_opened_host k1) (ex_opened_world k1)))"

text \<open>
  The entries of the first and of the second composite a new host creates (objects 1, 2, 3
  and 4, 5, 6).
\<close>

definition ex_entry :: "call list \<Rightarrow> entry" where
  "ex_entry fs =
     \<lparr>composite = \<lparr>oid = 1, faults = fs\<rparr>, entry_container = 3, disposables = 2\<rparr>"

definition ex_entry2 :: "call list \<Rightarrow> entry" where
  "ex_entry2 fs =
     \<lparr>composite = \<lparr>oid = 4, faults = fs\<rparr>, entry_container = 6, disposables = 5\<rparr>"

section \<open>MobileSidebarWidget\<close>

text \<open>
  mobileSidebarWidget.ts. The widget talks to services of the application: the storage
  service (a map from keys to strings, workspace scope), the view descriptor service, the
  instantiation service and, through the host, the registries. \<^verbatim>\<open>JSON.parse\<close> is a
  builtin and is taken as a parameter: \<open>None\<close> is a thrown \<^verbatim>\<open>SyntaxError\<close>. So is
  the browser's HTML parser, which builds the nodes for the markup assigned to
  \<^verbatim>\<open>innerHTML\<close>. Console
  output, the icons of the buttons and the style properties other than \<^verbatim>\<open>display\<close>
  and \<^verbatim>\<open>height\<close> are left out; the claims do not depend on them.
\<close>

datatype json =
  JNull | JBool bool | JNumber real | JString string
| JArray "json list" | JObject "(string \<times> json) list"

record ViewContainer =
  vc_id :: ident
  title :: string

record services =
  JSON_parse :: "string \<Rightarrow> json option"
  parseHTML :: "string \<Rightarrow> node list"
  getViewContainersByLocation :: "ViewContainerLocation \<Rightarrow> ViewContainer list"
  getViewContainerById :: "ident \<Rightarrow> ViewContainer option"
  createInstance_throws :: bool
  host_env :: env

text \<open>
  A button of the activity bar: its element, its label, the container id its two
  listeners close over, and whether it carries the class \<^verbatim>\<open>checked\<close>.
\<close>

record Button =
  button_element :: ref
  aria_label :: string
  target :: ident
  checked :: bool

record MobileSidebarWidget =
  activityBarContainer :: ref
  contentContainer :: ref
  currentViewletId :: "ident option"
  embeddedHost :: "EmbeddedCompositeHost option"
  buttons :: "Button list"
  storage :: "string \<rightharpoonup> string"
  fired :: nat

definition LAST_ACTIVE_VIEWLET_KEY :: string where
  "LAST_ACTIVE_VIEWLET_KEY = ''workbench.mobileSidebar.lastActiveViewlet''"

text \<open>\<^verbatim>\<open>storageService.get(key, scope, fallback)\<close>.\<close>

definition storage_get :: "(string \<rightharpoonup> string) \<Rightarrow> string \<Rightarrow> string \<Rightarrow> string" where
  "storage_get st key fallback = (case st key of None \<Rightarrow> fallback | Some v \<Rightarrow> v)"

definition default_viewlets :: "json list" where
  "default_viewlets =
     [JString ''workbench.view.explorer'', JString ''workbench.view.search'',
      JString ''workbench.view.scm'', JString ''workbench.view.debug'',
      JString ''workbench.view.extensions'']"

text \<open>
  \<^verbatim>\<open>getPinnedViewletIds\<close> (lines 356-373). The parsed array is returned as it is, whatever
  its elements are.
\<close>

definition getPinnedViewletIds :: "services \<Rightarrow> (string \<rightharpoonup> string) \<Rightarrow> json list" where
  "getPinnedViewletIds sv st =
     (case JSON_parse sv (storage_get st ''workbench.activity.pinnedViewlets2'' ''[]'') of
        Some (JArray (x # xs)) \<Rightarrow> x # xs
      | _ \<Rightarrow> default_viewlets)"

text \<open>
  \<^verbatim>\<open>allContainers.find(c => c.id === id)\<close>: strict equality holds only for a string equal
  to the container's id.
\<close>

definition find_container :: "ViewContainer list \<Rightarrow> json \<Rightarrow> ViewContainer option" where
  "find_container allContainers v = List.find (\<lambda>c. JString (vc_id c) = v) allContainers"

text \<open>Lines 107-122, and again lines 271-281: the containers the activity bar shows.\<close>

definition displayed_containers :: "services \<Rightarrow> (string \<rightharpoonup> string) \<Rightarrow> ViewContainer list" where
  "displayed_containers sv st =
     (let allContainers = getViewContainersByLocation sv Sidebar;
          viewContainers =
            List.map_filter (find_container allContainers) (getPinnedViewletIds sv st)
      in if viewContainers = [] then allContainers else viewContainers)"

text \<open>
  The body of the \<^verbatim>\<open>forEach\<close> of lines 135-194: three elements per container, the
  button appended to the action bar last.
\<close>

fun add_buttons :: "ref \<Rightarrow> ViewContainer list \<Rightarrow> world \<Rightarrow> Button list \<times> world" where
  "add_buttons actionBar [] w = ([], w)"
| "add_buttons actionBar (c # cs) w =
     (case createElement w of
        (button, w1) \<Rightarrow>
          (case createElement
                  (update_element button (\<lambda>e. e\<lparr>classList := [''action-item'']\<rparr>) w1) of
             (iconContainer, w2) \<Rightarrow>
               (case createElement
                       (update_element iconContainer
                          (\<lambda>e. e\<lparr>classList := [''action-label'']\<rparr>) w2) of
                  (icon, w3) \<Rightarrow>
                    (case add_buttons actionBar cs
                            (appendChild actionBar button
                               (appendChild button iconContainer
                                  (appendChild iconContainer icon w3))) of
                       (bs, w4) \<Rightarrow>
                         (\<lparr>button_element = button, aria_label = title c,
                           target = vc_id c, checked = False\<rparr> # bs, w4)))))"

text \<open>\<^verbatim>\<open>createActivityBar\<close> (lines 105-195).\<close>

definition createActivityBar ::
  "services \<Rightarrow> MobileSidebarWidget \<Rightarrow> world \<Rightarrow> MobileSidebarWidget \<times> world" where
  "createActivityBar sv wd w =
     (case createElement w of
        (actionBar, w1) \<Rightarrow>
          (case add_buttons actionBar (displayed_containers sv (storage wd))
                  (appendChild (activityBarContainer wd) actionBar
                     (update_element actionBar
                        (\<lambda>e. e\<lparr>classList := [''mobile-activity-actions''],
                               style_display := ''flex''\<rparr>) w1)) of
             (bs, w2) \<Rightarrow> (wd\<lparr>buttons := buttons wd @ bs\<rparr>, w2)))"

text \<open>
  Assigning \<^verbatim>\<open>innerHTML\<close>: the element loses the children it had, those the program
  created and those parsed earlier, and gets the nodes the parser builds from the markup.
\<close>

definition set_innerHTML :: "services \<Rightarrow> ref \<Rightarrow> string \<Rightarrow> world \<Rightarrow> world" where
  "set_innerHTML sv p html w =
     w\<lparr>elements :=
         (\<lambda>r. map_option
                (\<lambda>e. if r = p then e\<lparr>childNodes := parseHTML sv html\<rparr>
                     else if parentElement e = Some p then e\<lparr>parentElement := None\<rparr>
                     else e)
                (elements w r))\<rparr>"

text \<open>The template literal of lines 260-265, with its line breaks and tabs.\<close>

definition placeholder_html :: "string \<Rightarrow> string" where
  "placeholder_html t =
     [CHR 0x0A] @ replicate 4 (CHR 0x09) @
     ''<div style='' @ [CHR 0x22] @ ''padding: 20px;'' @ [CHR 0x22] @ ''>'' @
     [CHR 0x0A] @ replicate 5 (CHR 0x09) @ ''<h3>'' @ t @ ''</h3>'' @
     [CHR 0x0A] @ replicate 5 (CHR 0x09) @
     ''<p style='' @ [CHR 0x22] @ ''color: var(--vscode-descriptionForeground);'' @ [CHR 0x22] @
     ''>Unable to load viewlet</p>'' @
     [CHR 0x0A] @ replicate 4 (CHR 0x09) @ ''</div>'' @
     [CHR 0x0A] @ replicate 3 (CHR 0x09)"

text \<open>\<^verbatim>\<open>showPlaceholder\<close> (lines 257-267).\<close>

definition showPlaceholder :: "services \<Rightarrow> ref \<Rightarrow> ident \<Rightarrow> world \<Rightarrow> world" where
  "showPlaceholder sv wrapper viewletId w =
     (case getViewContainerById sv viewletId of
        None \<Rightarrow> w
      | Some viewContainer \<Rightarrow>
          set_innerHTML sv wrapper (placeholder_html (title viewContainer)) w)"

text \<open>\<^verbatim>\<open>updateActiveButton\<close> (lines 269-289).\<close>

definition updateActiveButton ::
  "services \<Rightarrow> ident \<Rightarrow> MobileSidebarWidget \<Rightarrow> MobileSidebarWidget" where
  "updateActiveButton sv viewletId wd =
     (let viewContainers = displayed_containers sv (storage wd) in
      wd\<lparr>buttons :=
           map (\<lambda>(index, button).
                  button\<lparr>checked := (index < length viewContainers \<and>
                                     vc_id (viewContainers ! index) = viewletId)\<rparr>)
             (enumerate 0 (buttons wd))\<rparr>)"

text \<open>
  \<^verbatim>\<open>showViewlet\<close>, lines 202-223: the id is recorded and stored, the content is cleared,
  the previous host disposed (outside the \<^verbatim>\<open>try\<close>, so what it throws leaves
  \<^verbatim>\<open>showViewlet\<close>) and a new wrapper appended.
\<close>

definition prepare_content ::
  "services \<Rightarrow> ident \<Rightarrow> MobileSidebarWidget \<Rightarrow> world
     \<Rightarrow> (error + ref) \<times> MobileSidebarWidget \<times> world" where
  "prepare_content sv viewletId wd w =
     (let wd1 = wd\<lparr>currentViewletId := Some viewletId,
                    storage := (storage wd)(LAST_ACTIVE_VIEWLET_KEY \<mapsto> viewletId)\<rparr>;
          w1 = set_innerHTML sv (contentContainer wd) [] w
      in case (case embeddedHost wd1 of
                 None \<Rightarrow> (Inr (), wd1, w1)
               | Some hst \<Rightarrow>
                   (case dispose hst w1 of
                      (Inl x, hst1, w2) \<Rightarrow> (Inl x, wd1\<lparr>embeddedHost := Some hst1\<rparr>, w2)
                    | (Inr _, hst1, w2) \<Rightarrow> (Inr (), wd1\<lparr>embeddedHost := None\<rparr>, w2))) of
           (Inl x, wd2, w2) \<Rightarrow> (Inl x, wd2, w2)
         | (Inr _, wd2, w2) \<Rightarrow>
             (case createElement w2 of
                (wrapper, w3) \<Rightarrow>
                  (Inr wrapper, wd2,
                   appendChild (contentContainer wd) wrapper
                     (update_element wrapper
                        (\<lambda>e. e\<lparr>classList := [''mobile-sidebar-viewlet-content''],
                               style_height := ''100%''\<rparr>) w3))))"

text \<open>
  Lines 225-249, the \<^verbatim>\<open>try\<close> with its \<^verbatim>\<open>catch\<close>; nothing leaves it. The
  \<^verbatim>\<open>await\<close> is taken with nothing else running in between.
\<close>

definition render_viewlet ::
  "services \<Rightarrow> ident \<Rightarrow> ref \<Rightarrow> MobileSidebarWidget \<Rightarrow> world \<Rightarrow> MobileSidebarWidget \<times> world" where
  "render_viewlet sv viewletId wrapper wd w =
     (if createInstance_throws sv then (wd, showPlaceholder sv wrapper viewletId w)
      else
        case new_EmbeddedCompositeHost wrapper Sidebar w of
          (hst, w1) \<Rightarrow>
            (case openComposite (host_env sv) viewletId hst w1 of
               (Inl x, hst2, w2) \<Rightarrow>
                 (wd\<lparr>embeddedHost := Some hst2\<rparr>, showPlaceholder sv wrapper viewletId w2)
             | (Inr None, hst2, w2) \<Rightarrow>
                 (wd\<lparr>embeddedHost := Some hst2\<rparr>, showPlaceholder sv wrapper viewletId w2)
             | (Inr (Some c), hst2, w2) \<Rightarrow>
                 (case layout (getBoundingClientRect (host_env sv) wrapper) hst2 w2 of
                    (Inl x, w3) \<Rightarrow>
                      (wd\<lparr>embeddedHost := Some hst2\<rparr>,
                       showPlaceholder sv wrapper viewletId w3)
                  | (Inr _, w3) \<Rightarrow> (wd\<lparr>embeddedHost := Some hst2\<rparr>, w3))))"

text \<open>\<^verbatim>\<open>showViewlet\<close> (lines 197-255).\<close>

definition showViewlet ::
  "services \<Rightarrow> ident \<Rightarrow> MobileSidebarWidget \<Rightarrow> world
     \<Rightarrow> (error + unit) \<times> MobileSidebarWidget \<times> world" where
  "showViewlet sv viewletId wd w =
     (if currentViewletId wd = Some viewletId then (Inr (), wd, w)
      else
        case prepare_content sv viewletId wd w of
          (Inl x, wd1, w1) \<Rightarrow> (Inl x, wd1, w1)
        | (Inr wrapper, wd1, w1) \<Rightarrow>
            (case render_viewlet sv viewletId wrapper wd1 w1 of
               (wd2, w2) \<Rightarrow>
                 (Inr (),
                  (updateActiveButton sv viewletId wd2)\<lparr>fired := Suc (fired wd2)\<rparr>, w2)))"

text \<open>
  The two listeners of a button (lines 181-191): a click, or a key press of Enter or of
  the space bar, calls \<^verbatim>\<open>showViewlet\<close> with the container's id.
\<close>

datatype ui_event = Click | KeyDown string

fun activates :: "ui_event \<Rightarrow> bool" where
  "activates Click = True"
| "activates (KeyDown key) = (key = ''Enter'' \<or> key = '' '')"

definition dispatch ::
  "services \<Rightarrow> Button \<Rightarrow> ui_event \<Rightarrow> MobileSidebarWidget \<Rightarrow> world
     \<Rightarrow> (error + unit) \<times> MobileSidebarWidget \<times> world" where
  "dispatch sv button e wd w =
     (if activates e then showViewlet sv (target button) wd w else (Inr (), wd, w))"

section \<open>A concrete widget\<close>

text \<open>
  Three view containers in the sidebar, the third for the viewlet whose constructor
  throws; a stored list of pinned ids, the first of which names no view container;
  \<^verbatim>\<open>JSON.parse\<close> and the HTML parser on the texts used here.
\<close>

definition ex_pinned_text :: string where
  "ex_pinned_text =
     ''['' @ [CHR 0x22] @ ''workbench.view.scm'' @ [CHR 0x22] @ '','' @
     [CHR 0x22] @ ''broken.constructor'' @ [CHR 0x22] @ '','' @
     [CHR 0x22] @ ''workbench.view.search'' @ [CHR 0x22] @ '']''"

definition ex_JSON_parse :: "string \<Rightarrow> json option" where
  "ex_JSON_parse s =
     (if s = ''[]'' then Some (JArray [])
      else if s = ex_pinned_text
        then Some (JArray [JString ''workbench.view.scm'', JString ''broken.constructor'',
                           JString ''workbench.view.search''])
      else if s = ''{}'' then Some (JObject [])
      else None)"

text \<open>The nodes of the placeholder for the title \<^verbatim>\<open>Broken\<close>.\<close>

definition ex_placeholder_nodes :: "node list" where
  "ex_placeholder_nodes =
     [TextNode (CHR 0x0A # replicate 4 (CHR 0x09)),
      ElementNode ''div'' [(''style'', ''padding: 20px;'')]
        [TextNode (CHR 0x0A # replicate 5 (CHR 0x09)),
         ElementNode ''h3'' [] [TextNode ''Broken''],
         TextNode (CHR 0x0A # replicate 5 (CHR 0x09)),
         ElementNode ''p'' [(''style'', ''color: var(--vscode-descriptionForeground);'')]
           [TextNode ''Unable to load viewlet''],
         TextNode (CHR 0x0A # replicate 4 (CHR 0x09))],
      TextNode (CHR 0x0A # replicate 3 (CHR 0x09))]"

definition ex_parseHTML :: "string \<Rightarrow> node list" where
  "ex_parseHTML s = (if s = placeholder_html ''Broken'' then ex_placeholder_nodes else [])"

definition ex_containers :: "ViewContainer list" where
  "ex_containers =
     [\<lparr>vc_id = ''workbench.view.explorer'', title = ''Explorer''\<rparr>,
      \<lparr>vc_id = ''workbench.view.search'', title = ''Search''\<rparr>,
      \<lparr>vc_id = ''broken.constructor'', title = ''Broken''\<rparr>]"

definition ex_services :: services where
  "ex_services =
     \<lparr>JSON_parse = ex_JSON_parse,
      parseHTML = ex_parseHTML,
      getViewContainersByLocation = (\<lambda>l. if l = Sidebar then ex_containers else []),
      getViewContainerById =
        (\<lambda>i. List.find (\<lambda>c. vc_id c = i) ex_containers),
      createInstance_throws = False,
      host_env = ex_env\<rparr>"

text \<open>
  The widget before \<^verbatim>\<open>createActivityBar\<close>: element 0 is its container, elements 1 and 2
  the activity bar container and the content container.
\<close>

definition ex_widget_world :: world where
  "ex_widget_world =
     \<lparr>elements = [0 \<mapsto> ex_element, 1 \<mapsto> ex_element\<lparr>parentElement := Some 0\<rparr>,
                  2 \<mapsto> ex_element\<lparr>parentElement := Some 0\<rparr>],
      stores = Map.empty, calls = [], instantiations = [], fresh = 3\<rparr>"

definition ex_widget :: "(string \<rightharpoonup> string) \<Rightarrow> MobileSidebarWidget" where
  "ex_widget st =
     \<lparr>activityBarContainer = 1, contentContainer = 2, currentViewletId = None,
      embeddedHost = None, buttons = [], storage = st, fired = 0\<rparr>"

section \<open>Lemmas about the operations\<close>

lemma store_le_refl [simp]: "store_le st st"
  by (simp add: store_le_def)

lemma store_le_trans: "store_le a b \<Longrightarrow> store_le b c \<Longrightarrow> store_le a c"
  by (auto simp: store_le_def)

lemma frame_refl [simp]: "frame w w"
  by (simp add: frame_def)

lemma frame_trans: "frame w w1 \<Longrightarrow> frame w1 w2 \<Longrightarrow> frame w w2"
  by (auto simp: frame_def)

lemma evolves_refl [simp]: "evolves w w"
  by (auto simp: evolves_def)

lemma evolves_trans:
  assumes "evolves w w1" and "evolves w1 w2"
  shows "evolves w w2"
proof -
  have f: "fresh w \<le> fresh w1" "fresh w1 \<le> fresh w2"
    using assms by (auto simp: evolves_def)
  have st: "\<exists>st2. stores w2 s = Some st2 \<and> store_le st st2"
    if h: "s < fresh w" "stores w s = Some st" for s st
  proof -
    obtain st1 where 1: "stores w1 s = Some st1" "store_le st st1"
      using assms(1) h unfolding evolves_def by blast
    have "s < fresh w1" using h f by simp
    then obtain st2 where 2: "stores w2 s = Some st2" "store_le st1 st2"
      using assms(2) 1 unfolding evolves_def by blast
    show ?thesis using 1 2 store_le_trans by blast
  qed
  have el: "x < fresh w \<and> elements w x \<noteq> None \<longrightarrow> elements w2 x \<noteq> None" for x
    using assms f unfolding evolves_def by (meson less_le_trans)
  have cs: "\<exists>cs. calls w2 = calls w @ cs"
    using assms by (auto simp: evolves_def)
  show ?thesis
    unfolding evolves_def using f st el cs by auto
qed

lemma keeps_below_refl [simp]: "keeps_below n w w"
  by (simp add: keeps_below_def)

lemma keeps_below_trans:
  "keeps_below n w w1 \<Longrightarrow> keeps_below n w1 w2 \<Longrightarrow> keeps_below n w w2"
  by (auto simp: keeps_below_def)

lemma frame_keeps_below: "frame w w' \<Longrightarrow> keeps_below n w w'"
  by (auto simp: frame_def keeps_below_def)

lemma keeps_below_evolves: "keeps_below (fresh w) w w' \<Longrightarrow> evolves w w'"
  by (auto simp: evolves_def keeps_below_def)

lemma frame_invoke: "invoke c k w = (r, w') \<Longrightarrow> frame w w'"
  by (auto simp: invoke_def frame_def parent_of_def childNodes_of_def)

lemma frame_update_style:
  "(\<And>e. parentElement (f e) = parentElement e) \<Longrightarrow> (\<And>e. childNodes (f e) = childNodes e) \<Longrightarrow>
     frame w (update_element r f w)"
  by (auto simp: update_element_def frame_def parent_of_def childNodes_of_def split: option.splits)

lemma keeps_below_update_new: "n \<le> r \<Longrightarrow> keeps_below n w (update_element r f w)"
  by (auto simp: update_element_def keeps_below_def parent_of_def childNodes_of_def)

lemma dispose_members_effect:
  "dispose_members cs w = (es, w') \<Longrightarrow>
     w' = w\<lparr>calls := calls w @ map (\<lambda>c. (oid c, Dispose)) cs\<rparr> \<and>
     es = map (\<lambda>c. CompositeError (oid c) Dispose)
            (filter (\<lambda>c. Dispose \<in> set (faults c)) cs)"
proof (induction cs arbitrary: w es w')
  case Nil
  then show ?case by simp
next
  case (Cons c cs)
  obtain es1 w1 where r: "dispose_members cs (w\<lparr>calls := calls w @ [(oid c, Dispose)]\<rparr>) = (es1, w1)"
    by fastforce
  from Cons.IH [OF r] Cons.prems r show ?case
    by (auto simp: invoke_def)
qed

text \<open>What a store's \<^verbatim>\<open>dispose\<close> does to the world, whether or not it throws.\<close>

lemma store_dispose_world:
  "snd (store_dispose s w) =
     (case stores w s of
        None \<Rightarrow> w
      | Some st \<Rightarrow>
          if isDisposed st then w
          else w\<lparr>stores := (stores w)(s \<mapsto> \<lparr>isDisposed = True, toDispose = []\<rparr>),
                 calls := calls w @ map (\<lambda>c. (oid c, Dispose)) (toDispose st)\<rparr>)"
proof (cases "stores w s")
  case None
  then show ?thesis by (simp add: store_dispose_def)
next
  case (Some st)
  obtain es w1 where d: "dispose_members (toDispose st)
      (w\<lparr>stores := (stores w)(s \<mapsto> \<lparr>isDisposed = True, toDispose = []\<rparr>)\<rparr>) = (es, w1)"
    by fastforce
  from dispose_members_effect [OF d] d Some show ?thesis
    by (simp add: store_dispose_def)
qed

lemma store_dispose_result:
  assumes "stores w s = Some st" and "\<not> isDisposed st"
  shows "fst (store_dispose s w) =
     (case filter (\<lambda>c. Dispose \<in> set (faults c)) (toDispose st) of
        [] \<Rightarrow> Inr ()
      | [c] \<Rightarrow> Inl (CompositeError (oid c) Dispose)
      | bad \<Rightarrow> Inl (AggregateError (map (\<lambda>c. CompositeError (oid c) Dispose) bad)))"
proof -
  obtain es w1 where d: "dispose_members (toDispose st)
      (w\<lparr>stores := (stores w)(s \<mapsto> \<lparr>isDisposed = True, toDispose = []\<rparr>)\<rparr>) = (es, w1)"
    by fastforce
  from dispose_members_effect [OF d] d assms show ?thesis
    by (simp add: store_dispose_def split: list.splits)
qed

lemma store_dispose_idle:
  "stores w s = None \<or> store_isDisposed w s \<Longrightarrow> store_dispose s w = (Inr (), w)"
  by (auto simp: store_dispose_def store_isDisposed_def split: option.splits)

lemma store_dispose_single:
  assumes "stores w s = Some \<lparr>isDisposed = False, toDispose = [c]\<rparr>"
  shows "store_dispose s w =
     (if Dispose \<in> set (faults c) then Inl (CompositeError (oid c) Dispose) else Inr (),
      w\<lparr>stores := (stores w)(s \<mapsto> \<lparr>isDisposed = True, toDispose = []\<rparr>),
        calls := calls w @ [(oid c, Dispose)]\<rparr>)"
  using store_dispose_world [of s w] store_dispose_result [OF assms]
  by (simp add: assms prod_eq_iff)

lemma store_dispose_effect:
  assumes "store_dispose s w = (r, w')"
  shows "elements w' = elements w" "fresh w' = fresh w" "instantiations w' = instantiations w"
    "parent_of w' = parent_of w" "childNodes_of w' = childNodes_of w"
    "stores w s \<noteq> None \<Longrightarrow> store_isDisposed w' s"
    "s' \<noteq> s \<Longrightarrow> stores w' s' = stores w s'"
    "store_isDisposed w s' \<Longrightarrow> store_isDisposed w' s'"
    "\<exists>cs. calls w' = calls w @ cs"
proof -
  have w': "w' = snd (store_dispose s w)" using assms by simp
  show "elements w' = elements w" "fresh w' = fresh w" "instantiations w' = instantiations w"
    "parent_of w' = parent_of w" "childNodes_of w' = childNodes_of w"
    unfolding w' store_dispose_world
    by (auto simp: parent_of_def childNodes_of_def fun_eq_iff split: option.splits)
  show "stores w s \<noteq> None \<Longrightarrow> store_isDisposed w' s"
    unfolding w' store_dispose_world
    by (auto simp: store_isDisposed_def split: option.splits)
  show "s' \<noteq> s \<Longrightarrow> stores w' s' = stores w s'"
    unfolding w' store_dispose_world by (auto split: option.splits)
  show "store_isDisposed w s' \<Longrightarrow> store_isDisposed w' s'"
    unfolding w' store_dispose_world
    by (auto simp: store_isDisposed_def split: option.splits)
  show "\<exists>cs. calls w' = calls w @ cs"
    unfolding w' store_dispose_world by (auto split: option.splits)
qed

lemma evolves_store_dispose: "store_dispose s w = (r, w') \<Longrightarrow> evolves w w'"
  using store_dispose_world [of s w]
  by (auto simp: evolves_def store_le_def split: option.splits if_splits)

lemma keeps_below_store_dispose: "store_dispose s w = (r, w') \<Longrightarrow> n \<le> s \<Longrightarrow> keeps_below n w w'"
  using store_dispose_world [of s w]
  by (auto simp: keeps_below_def parent_of_def childNodes_of_def split: option.splits if_splits)

lemma evolves_remove_element: "evolves w (remove_element r w)"
  by (auto simp: remove_element_def update_element_def evolves_def)

lemma hideComposite_frame:
  assumes "hideComposite k h w = (r, w')"
  shows "frame w w'"
proof (cases "map_of (composites h) k")
  case None
  then show ?thesis using assms by (simp add: hideComposite_def)
next
  case (Some e)
  obtain r1 w1 where sv: "invoke (composite e) (SetVisible False) w = (r1, w1)"
    by fastforce
  have "w' = w1 \<or> w' = update_element (entry_container e) (\<lambda>d. d\<lparr>style_display := ''none''\<rparr>) w1"
    using assms Some sv by (auto simp: hideComposite_def split: sum.splits)
  then show ?thesis
    using frame_invoke [OF sv] frame_trans [OF frame_invoke [OF sv] frame_update_style]
    by auto
qed

lemma showComposite_fields:
  "showComposite ev k h w = (r, h', w') \<Longrightarrow>
     composites h' = composites h \<and> creatingComposites h' = creatingComposites h \<and>
     container h' = container h \<and> location h' = location h \<and>
     (currentCompositeId h' = currentCompositeId h \<or> r = Inr () \<and> currentCompositeId h' = Some k)"
  unfolding showComposite_def
  by (auto split: option.splits prod.splits sum.splits if_splits)

lemma showComposite_frame:
  assumes "showComposite ev k h w = (r, h', w')"
  shows "frame w w'"
proof (cases "map_of (composites h) k")
  case None
  then show ?thesis using assms by (simp add: showComposite_def)
next
  case (Some e)
  obtain r1 w1 where hide:
    "(case currentCompositeId h of None \<Rightarrow> (Inr (), w)
      | Some cur \<Rightarrow> if cur \<noteq> [] \<and> cur \<noteq> k then hideComposite cur h w else (Inr (), w)) = (r1, w1)"
    by fastforce
  have f1: "frame w w1"
    using hide by (auto split: option.splits if_splits dest: hideComposite_frame)
  obtain r2 w2 where sv: "invoke (composite e) (SetVisible True)
      (update_element (entry_container e)
         (\<lambda>d. d\<lparr>style_display := ''block'', style_height := ''100%''\<rparr>) w1) = (r2, w2)"
    by fastforce
  have f2: "frame w1 w2"
    using frame_trans [OF frame_update_style frame_invoke [OF sv]] by simp
  obtain r3 w3 where ly:
    "invoke (composite e) (Layout (getBoundingClientRect ev (container h))) w2 = (r3, w3)"
    by fastforce
  have f3: "frame w2 w3" using frame_invoke [OF ly] .
  have "w' = w1 \<or> w' = w2 \<or> w' = w3"
    using assms Some hide sv ly
    by (auto simp: showComposite_def split: sum.splits)
  then show ?thesis
    using f1 f2 f3 frame_trans by blast
qed

lemma entry_ok_evolves: "entry_ok w e \<Longrightarrow> evolves w w' \<Longrightarrow> entry_ok w' e"
  unfolding entry_ok_def evolves_def store_le_def
  by (elim conjE exE) (fastforce simp: subset_iff)

lemma entries_inv_evolves: "entries_inv cs w \<Longrightarrow> evolves w w' \<Longrightarrow> entries_inv cs w'"
  unfolding entries_inv_def using entry_ok_evolves by blast

lemma entries_inv_Nil [simp]: "entries_inv [] w"
  by (simp add: entries_inv_def)

lemma entries_inv_delete: "entries_inv cs w \<Longrightarrow> entries_inv (AList.delete k cs) w"
  unfolding entries_inv_def
  by (auto simp: distinct_delete delete_conv' split: if_splits)

lemma entries_inv_update:
  assumes "entries_inv cs w" and "entry_ok w e"
    and fresh_entry: "\<And>k' e'. map_of cs k' = Some e' \<Longrightarrow> k' \<noteq> k \<Longrightarrow>
           entry_container e' \<noteq> entry_container e \<and> oid (composite e') \<noteq> oid (composite e) \<and>
           disposables e' \<noteq> disposables e"
  shows "entries_inv (AList.update k e cs) w"
proof -
  have d: "distinct (map fst (AList.update k e cs))"
    using assms(1) by (simp add: entries_inv_def distinct_update)
  have ok: "entry_ok w e'" if "((map_of cs)(k \<mapsto> e)) k' = Some e'" for k' e'
    using that assms(1,2) by (cases "k' = k") (auto simp: entries_inv_def)
  have old: "k1 = k2"
    if "map_of cs k1 = Some e1" "map_of cs k2 = Some e2"
       "entry_container e1 = entry_container e2 \<or> oid (composite e1) = oid (composite e2) \<or>
        disposables e1 = disposables e2"
    for k1 k2 e1 e2
    using assms(1) that unfolding entries_inv_def by blast
  have inj: "k1 = k2"
    if 1: "((map_of cs)(k \<mapsto> e)) k1 = Some e1" and 2: "((map_of cs)(k \<mapsto> e)) k2 = Some e2"
      and 3: "entry_container e1 = entry_container e2 \<or> oid (composite e1) = oid (composite e2) \<or>
        disposables e1 = disposables e2"
    for k1 k2 e1 e2
  proof (cases "k1 = k")
    case True
    show ?thesis
    proof (rule ccontr)
      assume "k1 \<noteq> k2"
      then have "k2 \<noteq> k" "map_of cs k2 = Some e2" "e1 = e"
        using True 1 2 by auto
      then show False using fresh_entry [of k2 e2] 3 by auto
    qed
  next
    case False
    then have k1: "map_of cs k1 = Some e1" using 1 by simp
    show ?thesis
    proof (cases "k2 = k")
      case True
      then have "e2 = e" using 2 by simp
      then show ?thesis using fresh_entry [OF k1 False] 3 by auto
    next
      case False
      then have "map_of cs k2 = Some e2" using 2 by simp
      then show ?thesis using old k1 3 by blast
    qed
  qed
  show ?thesis
    unfolding entries_inv_def update_conv' using d ok inj by blast
qed

lemma pending_inv_shrink:
  assumes "pending_inv h w ps" and "fresh w \<le> fresh w'"
    and "creatingComposites h' = creatingComposites h"
    and "\<And>k e. map_of (composites h') k = Some e \<Longrightarrow> map_of (composites h) k = Some e"
  shows "pending_inv h' w' ps"
proof -
  have none: "map_of (composites h') k = None" if "map_of (composites h) k = None" for k
    using assms(4) [of k] that by (cases "map_of (composites h') k") auto
  show ?thesis
    using assms(1,2,3) none assms(4) unfolding pending_inv_def
    by (auto; (metis less_le_trans)?)
qed

lemma host_inv_step:
  assumes "host_inv el (h, w, ps)" and "evolves w w'"
    and "container h' = container h"
    and "creatingComposites h' = creatingComposites h"
    and "composites h' = composites h \<or> composites h' = AList.delete k (composites h) \<or>
         composites h' = []"
  shows "host_inv el (h', w', ps)"
proof -
  have f: "fresh w \<le> fresh w'" using assms(2) by (simp add: evolves_def)
  have e: "entries_inv (composites h') w'"
    using assms(1,2,5) entries_inv_evolves entries_inv_delete
    by (auto simp: host_inv_def)
  have sub: "map_of (composites h') k' = Some e' \<Longrightarrow> map_of (composites h) k' = Some e'" for k' e'
    using assms(5) by (auto simp: delete_conv' split: if_splits)
  have p: "pending_inv h' w' ps"
    using pending_inv_shrink [OF _ f assms(4) sub] assms(1) by (simp add: host_inv_def)
  have r: "elements w' el \<noteq> None" "el < fresh w'"
    using assms(1,2) f by (auto simp: host_inv_def evolves_def)
  show ?thesis
    using assms(1,3) e p r by (simp add: host_inv_def)
qed

lemma frame_evolves: "frame w w' \<Longrightarrow> evolves w w'"
  by (simp add: frame_keeps_below keeps_below_evolves)

lemma createComposite_effect:
  assumes "createComposite d w = (a, w')"
  shows "stores w' = stores w \<and> elements w' = elements w \<and> calls w' = calls w \<and>
         instantiations w' = instantiations w @ [descriptor_id d] \<and> fresh w \<le> fresh w' \<and>
         (\<forall>c. a = Inr (Some c) \<longrightarrow> oid c = fresh w \<and> fresh w' = Suc (fresh w))"
  using assms by (auto simp: createComposite_def Let_def split: instantiate_result.splits)

lemma createComposite_keeps: "createComposite d w = (a, w') \<Longrightarrow> keeps_below n w w'"
  using createComposite_effect [of d w a w']
  by (simp add: keeps_below_def parent_of_def childNodes_of_def)

lemma reuse_existing_effect:
  assumes "reuse_existing ev k h w = (r, h', w')"
  shows "frame w w' \<and> creatingComposites h' = creatingComposites h \<and>
         container h' = container h \<and> location h' = location h \<and>
         (composites h' = composites h \<or> composites h' = AList.delete k (composites h)) \<and>
         (r = None \<longrightarrow> map_of (composites h') k = None \<and> w' = w \<and>
                        currentCompositeId h' = currentCompositeId h) \<and>
         (r \<noteq> None \<longrightarrow> composites h' = composites h)"
proof (cases "map_of (composites h) k")
  case None
  then show ?thesis using assms by (auto simp: reuse_existing_def)
next
  case (Some e)
  show ?thesis
  proof (cases "store_isDisposed w (disposables e)")
    case True
    then show ?thesis using assms Some by (auto simp: reuse_existing_def delete_conv')
  next
    case False
    obtain r1 h1 w1 where sh: "showComposite ev k h w = (r1, h1, w1)"
      using prod_cases3 by blast
    have "h' = h1" "w' = w1" "r \<noteq> None"
      using assms Some False sh by (auto simp: reuse_existing_def split: sum.splits)
    then show ?thesis
      using showComposite_frame [OF sh] showComposite_fields [OF sh] by auto
  qed
qed

lemma lookup_and_instantiate_effect:
  assumes "lookup_and_instantiate ev k h w = (r, h', w')"
  shows "keeps_below n w w' \<and> composites h' = composites h \<and> container h' = container h \<and>
         location h' = location h \<and> currentCompositeId h' = currentCompositeId h \<and>
         (case r of
            Inr (Awaiting a) \<Rightarrow>
              creatingComposites h' = insert k (creatingComposites h) \<and>
              (\<forall>c. a = Inr (Some c) \<longrightarrow> oid c = fresh w \<and> fresh w' = Suc (fresh w))
          | _ \<Rightarrow> h' = h \<and> w' = w)"
  using assms unfolding lookup_and_instantiate_def
  by (auto split: option.splits prod.splits dest: createComposite_keeps createComposite_effect)

lemma hide_and_open_effect:
  assumes "hide_and_open ev k h w = (r, h', w')"
  shows "keeps_below n w w' \<and> container h' = container h \<and> location h' = location h \<and>
         (composites h' = composites h \<or> composites h' = AList.delete k (composites h)) \<and>
         (case r of
            Inr (Awaiting a) \<Rightarrow>
              creatingComposites h' = insert k (creatingComposites h) \<and>
              map_of (composites h') k = None \<and>
              (\<forall>c. a = Inr (Some c) \<longrightarrow> oid c = fresh w \<and> fresh w' = Suc (fresh w))
          | _ \<Rightarrow> creatingComposites h' = creatingComposites h)"
proof -
  obtain r1 w1 where hd:
    "(case currentCompositeId h of None \<Rightarrow> (Inr (), w)
      | Some cur \<Rightarrow> if cur \<noteq> [] then hideComposite cur h w else (Inr (), w)) = (r1, w1)"
    by fastforce
  have f1: "frame w w1"
    using hd by (auto split: option.splits if_splits dest: hideComposite_frame)
  show ?thesis
  proof (cases r1)
    case (Inl x)
    then have "r = Inl x" "h' = h" "w' = w1"
      using assms hd by (auto simp: hide_and_open_def)
    then show ?thesis using f1 by (simp add: frame_keeps_below)
  next
    case (Inr u)
    obtain r2 h2 w2 where re: "reuse_existing ev k h w1 = (r2, h2, w2)"
      using prod_cases3 by blast
    note e2 = reuse_existing_effect [OF re]
    have f2: "keeps_below n w w2"
      using f1 e2 frame_trans frame_keeps_below by blast
    show ?thesis
    proof (cases r2)
      case (Some x)
      then have "h' = h2" "w' = w2" "(\<exists>x. r = Inl x) \<or> (\<exists>y. r = Inr (Returned y))"
        using assms hd Inr re by (auto simp: hide_and_open_def split: sum.splits)
      then show ?thesis using f2 e2 by auto
    next
      case None
      then have la: "lookup_and_instantiate ev k h2 w2 = (r, h', w')"
        using assms hd Inr re by (auto simp: hide_and_open_def)
      note e3 = lookup_and_instantiate_effect [OF la, of n]
      have fr: "fresh w2 = fresh w" using f1 e2 by (simp add: frame_def)
      have "keeps_below n w w'" using f2 e3 keeps_below_trans by blast
      then show ?thesis
        using e2 e3 None fr
        by (auto split: sum.splits progress.splits)
    qed
  qed
qed

lemma openComposite_begin_effect:
  assumes "openComposite_begin ev k h w = (r, h', w')"
  shows "keeps_below n w w' \<and> container h' = container h \<and> location h' = location h \<and>
         (composites h' = composites h \<or> composites h' = AList.delete k (composites h)) \<and>
         (case r of
            Inr (Awaiting a) \<Rightarrow>
              k \<notin> creatingComposites h \<and>
              creatingComposites h' = insert k (creatingComposites h) \<and>
              map_of (composites h') k = None \<and>
              (\<forall>c. a = Inr (Some c) \<longrightarrow> oid c = fresh w \<and> fresh w' = Suc (fresh w))
          | _ \<Rightarrow> creatingComposites h' = creatingComposites h)"
proof (cases "k \<in> creatingComposites h")
  case True
  then show ?thesis using assms by (auto simp: openComposite_begin_def)
next
  case nc: False
  show ?thesis
  proof (cases "currentCompositeId h = Some k")
    case False
    then have "hide_and_open ev k h w = (r, h', w')"
      using assms nc by (simp add: openComposite_begin_def)
    from hide_and_open_effect [OF this, of n] nc show ?thesis
      by (auto split: sum.splits progress.splits)
  next
    case True
    obtain r1 h1 w1 where re: "reuse_existing ev k h w = (r1, h1, w1)"
      using prod_cases3 by blast
    note e1 = reuse_existing_effect [OF re]
    show ?thesis
    proof (cases r1)
      case (Some x)
      then have "h' = h1" "w' = w1" "(\<exists>x. r = Inl x) \<or> (\<exists>y. r = Inr (Returned y))"
        using assms nc True re by (auto simp: openComposite_begin_def split: sum.splits)
      then show ?thesis using e1 by (auto simp: frame_keeps_below)
    next
      case None
      then have ho: "hide_and_open ev k h1 w1 = (r, h', w')"
        using assms nc True re by (auto simp: openComposite_begin_def)
      note e2 = hide_and_open_effect [OF ho, of n]
      have "w1 = w" using e1 None by simp
      moreover have "AList.delete k (composites h1) = composites h1"
        using e1 None by (simp add: delete_idem map_of_eq_None_iff)
      ultimately show ?thesis
        using e1 e2 nc by (auto split: sum.splits progress.splits)
    qed
  qed
qed

lemma remove_element_fields [simp]:
  "stores (remove_element r w) = stores w"
  "fresh (remove_element r w) = fresh w"
  "instantiations (remove_element r w) = instantiations w"
  "calls (remove_element r w) = calls w"
  "store_isDisposed (remove_element r w) = store_isDisposed w"
  "(elements (remove_element r w) x = None) = (elements w x = None)"
  "parent_of (remove_element r w) r = None"
  "childNodes_of (remove_element r w) = childNodes_of w"
  by (auto simp: remove_element_def update_element_def parent_of_def store_isDisposed_def
      childNodes_of_def fun_eq_iff option.map_comp comp_def split: option.splits)

lemma remove_element_other:
  "x \<noteq> r \<Longrightarrow> parent_of (remove_element r w) x = parent_of w x"
  by (simp add: remove_element_def update_element_def parent_of_def)

lemma cleanup_None [simp]: "cleanup None None w = (Inr None, w)"
  by (simp add: cleanup_def)

lemma cleanup_Some:
  "cleanup (Some s) (Some el) w =
     (case store_dispose s w of
        (Inl x, w1) \<Rightarrow> (Inl x, w1)
      | (Inr u, w1) \<Rightarrow>
          (Inr None, if parent_of w1 el \<noteq> None then remove_element el w1 else w1))"
  by (simp add: cleanup_def split: prod.splits sum.splits)

text \<open>The \<^verbatim>\<open>catch\<close> when the store is live and holds the composite.\<close>

lemma cleanup_live:
  assumes "stores w s = Some \<lparr>isDisposed = False, toDispose = [c]\<rparr>"
    and "cleanup (Some s) (Some el) w = (r, w')"
  shows "r = (if Dispose \<in> set (faults c) then Inl (CompositeError (oid c) Dispose) else Inr None)"
    "stores w' = (stores w)(s \<mapsto> \<lparr>isDisposed = True, toDispose = []\<rparr>)"
    "calls w' = calls w @ [(oid c, Dispose)]"
    "fresh w' = fresh w" "instantiations w' = instantiations w"
    "(elements w' x = None) = (elements w x = None)"
    "childNodes_of w' = childNodes_of w"
    "x \<noteq> el \<Longrightarrow> parent_of w' x = parent_of w x"
    "parent_of w' el = (if Dispose \<in> set (faults c) then parent_of w el else None)"
proof -
  let ?d = "w\<lparr>stores := (stores w)(s \<mapsto> \<lparr>isDisposed = True, toDispose = []\<rparr>),
              calls := calls w @ [(oid c, Dispose)]\<rparr>"
  have p: "parent_of ?d = parent_of w" "childNodes_of ?d = childNodes_of w"
    by (simp_all add: parent_of_def childNodes_of_def fun_eq_iff)
  have res: "r = (if Dispose \<in> set (faults c) then Inl (CompositeError (oid c) Dispose) else Inr None)"
    "w' = (if Dispose \<in> set (faults c) then ?d
           else if parent_of w el \<noteq> None then remove_element el ?d else ?d)"
    using assms(2)
    by (auto simp: cleanup_Some store_dispose_single [OF assms(1)] p split: if_splits)
  show "r = (if Dispose \<in> set (faults c) then Inl (CompositeError (oid c) Dispose) else Inr None)"
    using res(1) .
  show "stores w' = (stores w)(s \<mapsto> \<lparr>isDisposed = True, toDispose = []\<rparr>)"
    "calls w' = calls w @ [(oid c, Dispose)]"
    "fresh w' = fresh w" "instantiations w' = instantiations w"
    "(elements w' x = None) = (elements w x = None)"
    "childNodes_of w' = childNodes_of w"
    unfolding res(2) using p(2) by simp_all
  show "x \<noteq> el \<Longrightarrow> parent_of w' x = parent_of w x"
    unfolding res(2) using p(1) by (simp add: remove_element_other)
  show "parent_of w' el = (if Dispose \<in> set (faults c) then parent_of w el else None)"
    unfolding res(2) using p(1) by simp
qed

text \<open>The \<^verbatim>\<open>catch\<close> when the inner \<^verbatim>\<open>catch\<close> has been there before.\<close>

lemma cleanup_disposed:
  assumes "store_isDisposed w s" and "parent_of w el = None"
  shows "cleanup (Some s) (Some el) w = (Inr None, w)"
  using assms by (simp add: cleanup_Some store_dispose_idle)

lemma create_ui_ok:
  assumes "Create el \<notin> set (faults c)" and "UpdateStyles \<notin> set (faults c)"
  shows "create_ui c s el w =
     (Inr (), w\<lparr>calls := calls w @ [(oid c, Create el), (oid c, UpdateStyles)]\<rparr>)"
  using assms by (simp add: create_ui_def invoke_def)

lemma create_ui_failed:
  assumes fl: "Create el \<in> set (faults c) \<or> UpdateStyles \<in> set (faults c)"
    and st: "stores w s = Some \<lparr>isDisposed = False, toDispose = [c]\<rparr>"
    and ui: "create_ui c s el w = (r, w')"
  shows "\<exists>x. r = Inl x"
    "stores w' = (stores w)(s \<mapsto> \<lparr>isDisposed = True, toDispose = []\<rparr>)"
    "\<exists>cs. calls w' = calls w @ (oid c, Create el) # cs @ [(oid c, Dispose)]"
    "fresh w' = fresh w" "instantiations w' = instantiations w"
    "(elements w' x = None) = (elements w x = None)"
    "childNodes_of w' = childNodes_of w"
    "x \<noteq> el \<Longrightarrow> parent_of w' x = parent_of w x"
    "parent_of w el = None \<Longrightarrow> parent_of w' el = None"
proof -
  define cs where "cs = (if Create el \<in> set (faults c) then [] else [(oid c, UpdateStyles)])"
  define w2 where "w2 = w\<lparr>calls := calls w @ (oid c, Create el) # cs\<rparr>"
  let ?d = "w2\<lparr>stores := (stores w2)(s \<mapsto> \<lparr>isDisposed = True, toDispose = []\<rparr>),
               calls := calls w2 @ [(oid c, Dispose)]\<rparr>"
  have st2: "stores w2 s = Some \<lparr>isDisposed = False, toDispose = [c]\<rparr>"
    using st by (simp add: w2_def)
  have "\<exists>x. (case invoke c (Create el) w of
              (Inl x, w1) \<Rightarrow> (Inl x, w1)
            | (Inr _, w1) \<Rightarrow> invoke c UpdateStyles w1) = (Inl x, w2)"
    using fl by (auto simp: invoke_def w2_def cs_def)
  then have res: "(\<exists>x. r = Inl x) \<and> (w' = ?d \<or> w' = remove_element el ?d)"
    using ui unfolding create_ui_def
    by (auto simp: store_dispose_single [OF st2] split: if_splits)
  have p: "parent_of ?d = parent_of w" "childNodes_of ?d = childNodes_of w"
    by (simp_all add: parent_of_def childNodes_of_def fun_eq_iff w2_def)
  show "\<exists>x. r = Inl x" using res by simp
  show "stores w' = (stores w)(s \<mapsto> \<lparr>isDisposed = True, toDispose = []\<rparr>)"
    "fresh w' = fresh w" "instantiations w' = instantiations w"
    "(elements w' x = None) = (elements w x = None)"
    using res by (auto simp: w2_def)
  show "\<exists>cs. calls w' = calls w @ (oid c, Create el) # cs @ [(oid c, Dispose)]"
    using res by (auto simp: w2_def)
  show "childNodes_of w' = childNodes_of w"
    using res p(2) by auto
  show "x \<noteq> el \<Longrightarrow> parent_of w' x = parent_of w x"
    using res p(1) by (auto simp: remove_element_other)
  show "parent_of w el = None \<Longrightarrow> parent_of w' el = None"
    using res p(1) by auto
qed

lemma setup_effect:
  assumes "new_DisposableStore w = (s, w1)" and "createElement (store_add s c w1) = (el, w2)"
    and "\<And>d. parentElement (f d) = parentElement d"
    and "w3 = update_element el f w2"
  shows "s = fresh w \<and> el = Suc (fresh w) \<and> fresh w3 = Suc (Suc (fresh w)) \<and>
         keeps_below (fresh w) w w3 \<and>
         stores w3 = (stores w)(s \<mapsto> \<lparr>isDisposed = False, toDispose = [c]\<rparr>) \<and>
         elements w3 el \<noteq> None \<and> parent_of w3 el = None \<and>
         calls w3 = calls w \<and> instantiations w3 = instantiations w \<and>
         (\<forall>x. x \<noteq> el \<longrightarrow> elements w3 x = elements w x)"
  using assms
  by (auto simp: new_DisposableStore_def createElement_def store_add_def update_element_def
      keeps_below_def parent_of_def childNodes_of_def)

lemma create_and_show_unfold:
  assumes "create_and_show ev k c h w = (res, h', w')"
  obtains w3 r w4 where
    "fresh w3 = Suc (Suc (fresh w))" "keeps_below (fresh w) w w3"
    "stores w3 = (stores w)(fresh w \<mapsto> \<lparr>isDisposed = False, toDispose = [c]\<rparr>)"
    "elements w3 (Suc (fresh w)) \<noteq> None" "parent_of w3 (Suc (fresh w)) = None"
    "calls w3 = calls w" "instantiations w3 = instantiations w"
    "create_ui c (fresh w) (Suc (fresh w)) w3 = (r, w4)"
    "case r of
       Inl x \<Rightarrow> h' = h \<and> cleanup (Some (fresh w)) (Some (Suc (fresh w))) w4 = (res, w')
     | Inr u \<Rightarrow>
         (\<exists>r5 w5. showComposite ev k
              (h\<lparr>composites := AList.update k
                   \<lparr>composite = c, entry_container = Suc (fresh w), disposables = fresh w\<rparr>
                   (composites h)\<rparr>)
              (appendChild (container h) (Suc (fresh w)) w4) = (r5, h', w5) \<and>
            (case r5 of
               Inl x \<Rightarrow> cleanup (Some (fresh w)) (Some (Suc (fresh w))) w5 = (res, w')
             | Inr u \<Rightarrow> res = Inr (Some c) \<and> w' = w5))"
proof -
  obtain s w1 where a: "new_DisposableStore w = (s, w1)" by fastforce
  obtain el w2 where b: "createElement (store_add s c w1) = (el, w2)" by fastforce
  define w3 where "w3 = update_element el
     (\<lambda>d. d\<lparr>classList := [''composite'', ''embedded-composite''],
            elem_id := k, style_display := ''none''\<rparr>) w2"
  note su = setup_effect [OF a b _ w3_def, simplified]
  obtain r w4 where c: "create_ui c s el w3 = (r, w4)" by fastforce
  obtain r5 h5 w5 where d: "showComposite ev k
      (h\<lparr>composites := AList.update k
           \<lparr>composite = c, entry_container = el, disposables = s\<rparr> (composites h)\<rparr>)
      (appendChild (container h) el w4) = (r5, h5, w5)"
    using prod_cases3 by blast
  have e: "case r of
       Inl x \<Rightarrow> h' = h \<and> cleanup (Some s) (Some el) w4 = (res, w')
     | Inr u \<Rightarrow>
         h' = h5 \<and>
         (case r5 of
            Inl x \<Rightarrow> cleanup (Some s) (Some el) w5 = (res, w')
          | Inr u \<Rightarrow> res = Inr (Some c) \<and> w' = w5)"
    using assms a b c d unfolding create_and_show_def w3_def
    by (auto split: sum.splits prod.splits)
  show thesis
    using that [of w3 r w4] su c d e
    by (auto split: sum.splits)
qed

lemma update_element_fields [simp]:
  "stores (update_element r f w) = stores w"
  "calls (update_element r f w) = calls w"
  "fresh (update_element r f w) = fresh w"
  "instantiations (update_element r f w) = instantiations w"
  "(elements (update_element r f w) x = None) = (elements w x = None)"
  by (auto simp: update_element_def)

lemma hide_choice_frame:
  assumes "(case cur of None \<Rightarrow> (Inr (), w)
            | Some p \<Rightarrow> if P p then hideComposite p h w else (Inr (), w)) = (r1, w1)"
  shows "frame w w1"
  using assms by (auto split: option.splits if_splits dest: hideComposite_frame)

lemma showComposite_shown:
  assumes "showComposite ev k h w = (Inr u, h', w')" and "map_of (composites h) k = Some e"
  shows "currentCompositeId h' = Some k \<and>
         (elements w (entry_container e) \<noteq> None \<longrightarrow>
            display_of w' (entry_container e) = Some ''block'') \<and>
         (oid (composite e), SetVisible True) \<in> set (new_calls w w') \<and>
         (oid (composite e), Layout (getBoundingClientRect ev (container h)))
            \<in> set (new_calls w w') \<and>
         h' = h\<lparr>currentCompositeId := Some k\<rparr>"
proof -
  obtain r1 w1 where hd:
    "(case currentCompositeId h of None \<Rightarrow> (Inr (), w)
      | Some cur \<Rightarrow> if cur \<noteq> [] \<and> cur \<noteq> k then hideComposite cur h w else (Inr (), w))
     = (r1, w1)"
    by fastforce
  note f1 = hide_choice_frame [OF hd]
  define w2 where "w2 = update_element (entry_container e)
      (\<lambda>d. d\<lparr>style_display := ''block'', style_height := ''100%''\<rparr>) w1"
  have res: "h' = h\<lparr>currentCompositeId := Some k\<rparr>"
    "w' = w2\<lparr>calls := calls w2 @ [(oid (composite e), SetVisible True),
        (oid (composite e), Layout (getBoundingClientRect ev (container h)))]\<rparr>"
    using assms hd unfolding showComposite_def w2_def
    by (auto simp: invoke_def split: sum.splits if_splits)
  obtain cs where cs: "calls w1 = calls w @ cs" using f1 by (auto simp: frame_def)
  have ex: "(elements w1 x = None) = (elements w x = None)" for x
    using f1 by (simp add: frame_def)
  have "display_of w' (entry_container e) = Some ''block''"
    if "elements w (entry_container e) \<noteq> None"
    using that ex [of "entry_container e"]
    by (auto simp: res w2_def display_of_def update_element_def)
  moreover have "calls w' = calls w @ cs @ [(oid (composite e), SetVisible True),
        (oid (composite e), Layout (getBoundingClientRect ev (container h)))]"
    by (simp add: res w2_def cs)
  ultimately show ?thesis
    using res(1) by (simp add: new_calls_def)
qed

lemma showComposite_result:
  assumes "showComposite ev k h w = (r, h', w')" and "map_of (composites h) k = Some e"
  shows "(r = Inr ()) = (\<not> show_throws ev k e h)"
  using assms unfolding showComposite_def hideComposite_def show_throws_def invoke_def
  by (auto split: option.splits if_splits sum.splits prod.splits)

lemma show_throws_update [simp]:
  "show_throws ev k e (h\<lparr>composites := AList.update k e' (composites h)\<rparr>) = show_throws ev k e h"
  by (auto simp: show_throws_def update_conv' split: option.splits)

lemma showComposite_thrown:
  assumes "showComposite ev k h w = (Inl x, h', w')"
  shows "h' = h \<and> (\<exists>i c. x = CompositeError i c \<and> (i, c) \<in> set (new_calls w w') \<and>
           (c = SetVisible False \<or> c = SetVisible True \<or>
            c = Layout (getBoundingClientRect ev (container h))))"
proof (cases "map_of (composites h) k")
  case None
  then show ?thesis using assms by (simp add: showComposite_def)
next
  case (Some e)
  obtain r1 w1 where hd:
    "(case currentCompositeId h of None \<Rightarrow> (Inr (), w)
      | Some cur \<Rightarrow> if cur \<noteq> [] \<and> cur \<noteq> k then hideComposite cur h w else (Inr (), w))
     = (r1, w1)"
    by fastforce
  note f1 = hide_choice_frame [OF hd]
  obtain cs where cs: "calls w1 = calls w @ cs" using f1 by (auto simp: frame_def)
  show ?thesis
  proof (cases r1)
    case (Inl y)
    then have 1: "x = y" "h' = h" "w' = w1"
      using assms Some hd by (auto simp: showComposite_def)
    have "\<exists>i. y = CompositeError i (SetVisible False) \<and> (i, SetVisible False) \<in> set (new_calls w w1)"
      using hd Inl
      by (auto simp: hideComposite_def invoke_def new_calls_def
          split: option.splits if_splits sum.splits)
    then show ?thesis using 1 by auto
  next
    case (Inr v)
    define w2 where "w2 = update_element (entry_container e)
      (\<lambda>d. d\<lparr>style_display := ''block'', style_height := ''100%''\<rparr>) w1"
    have "h' = h \<and> ((x = CompositeError (oid (composite e)) (SetVisible True) \<and>
         w' = w2\<lparr>calls := calls w2 @ [(oid (composite e), SetVisible True)]\<rparr>) \<or>
       (x = CompositeError (oid (composite e)) (Layout (getBoundingClientRect ev (container h))) \<and>
         w' = w2\<lparr>calls := calls w2 @ [(oid (composite e), SetVisible True),
            (oid (composite e), Layout (getBoundingClientRect ev (container h)))]\<rparr>))"
      using assms Some hd Inr unfolding showComposite_def w2_def
      by (auto simp: invoke_def split: sum.splits if_splits)
    then show ?thesis
      by (auto simp: new_calls_def w2_def cs)
  qed
qed

lemma appendChild_effect:
  "elements w el \<noteq> None \<Longrightarrow> parent_of (appendChild p el w) el = Some p"
  "stores (appendChild p el w) = stores w"
  "fresh (appendChild p el w) = fresh w"
  "calls (appendChild p el w) = calls w"
  "instantiations (appendChild p el w) = instantiations w"
  "(elements (appendChild p el w) x = None) = (elements w x = None)"
  by (auto simp: appendChild_def update_element_def parent_of_def)

lemma frame_facts:
  assumes "frame w w'"
  shows "stores w' = stores w" "fresh w' = fresh w" "instantiations w' = instantiations w"
    "(elements w' x = None) = (elements w x = None)" "parent_of w' x = parent_of w x"
    "store_isDisposed w' = store_isDisposed w" "childNodes_of w' x = childNodes_of w x"
  using assms by (auto simp: frame_def store_isDisposed_def fun_eq_iff)

lemma keeps_below_remove_element: "n \<le> r \<Longrightarrow> keeps_below n w (remove_element r w)"
  unfolding remove_element_def by (rule keeps_below_update_new)

lemma keeps_below_cleanup:
  assumes "cleanup (Some s) (Some el) w = (r, w')" and "n \<le> s" and "n \<le> el"
  shows "keeps_below n w w'"
proof -
  obtain r1 w1 where d: "store_dispose s w = (r1, w1)" by fastforce
  have 1: "keeps_below n w w1" using d assms(2) by (rule keeps_below_store_dispose)
  have 2: "keeps_below n w1 (remove_element el w1)"
    using assms(3) by (rule keeps_below_remove_element)
  have "w' = w1 \<or> w' = remove_element el w1"
    using assms(1) d by (auto simp: cleanup_Some split: sum.splits if_splits)
  then show ?thesis using 1 keeps_below_trans [OF 1 2] by auto
qed

lemma keeps_below_create_ui:
  assumes "create_ui c s el w = (r, w')" and "n \<le> s" and "n \<le> el"
  shows "keeps_below n w w'"
proof -
  obtain r2 w2 where a: "(case invoke c (Create el) w of
              (Inl x, w1) \<Rightarrow> (Inl x, w1)
            | (Inr _, w1) \<Rightarrow> invoke c UpdateStyles w1) = (r2, w2)"
    by fastforce
  have "frame w w2"
    using a by (auto simp: invoke_def frame_def parent_of_def childNodes_of_def split: if_splits)
  then have 0: "keeps_below n w w2" by (rule frame_keeps_below)
  obtain r3 w3 where d: "store_dispose s w2 = (r3, w3)" by fastforce
  have 1: "keeps_below n w2 w3" using d assms(2) by (rule keeps_below_store_dispose)
  have 2: "keeps_below n w3 (remove_element el w3)"
    using assms(3) by (rule keeps_below_remove_element)
  have "w' = w2 \<or> w' = w3 \<or> w' = remove_element el w3"
    using assms(1) a d by (auto simp: create_ui_def split: sum.splits)
  then show ?thesis
    using 0 keeps_below_trans [OF 0 1] keeps_below_trans [OF keeps_below_trans [OF 0 1] 2]
    by auto
qed

lemma create_and_show_effect:
  assumes cs: "create_and_show ev k c h w = (res, h', w')"
  defines "e \<equiv> \<lparr>composite = c, entry_container = Suc (fresh w), disposables = fresh w\<rparr>"
  shows "keeps_below (fresh w) w w' \<and> fresh w' = Suc (Suc (fresh w)) \<and>
         instantiations w' = instantiations w \<and>
         container h' = container h \<and> creatingComposites h' = creatingComposites h \<and>
         location h' = location h \<and>
         elements w' (Suc (fresh w)) \<noteq> None \<and>
         (oid c, Create (Suc (fresh w))) \<in> set (new_calls w w') \<and>
         (if Create (Suc (fresh w)) \<in> set (faults c) \<or> UpdateStyles \<in> set (faults c) then
            res = Inr None \<and> h' = h \<and>
            stores w' (fresh w) = Some \<lparr>isDisposed = True, toDispose = []\<rparr> \<and>
            parent_of w' (Suc (fresh w)) = None \<and> (oid c, Dispose) \<in> set (new_calls w w')
          else if show_throws ev k e h then
            h' = h\<lparr>composites := AList.update k e (composites h)\<rparr> \<and>
            stores w' (fresh w) = Some \<lparr>isDisposed = True, toDispose = []\<rparr> \<and>
            (oid c, Dispose) \<in> set (new_calls w w') \<and>
            (if Dispose \<in> set (faults c)
             then res = Inl (CompositeError (oid c) Dispose) \<and>
                  parent_of w' (Suc (fresh w)) = Some (container h)
             else res = Inr None \<and> parent_of w' (Suc (fresh w)) = None)
          else
            res = Inr (Some c) \<and>
            h' = h\<lparr>composites := AList.update k e (composites h), currentCompositeId := Some k\<rparr> \<and>
            stores w' (fresh w) = Some \<lparr>isDisposed = False, toDispose = [c]\<rparr> \<and>
            parent_of w' (Suc (fresh w)) = Some (container h) \<and>
            (\<exists>ws. keeps_below (fresh w) w ws \<and>
               showComposite ev k (h\<lparr>composites := AList.update k e (composites h)\<rparr>) ws
                 = (Inr (), h', w')))"
proof -
  let ?s = "fresh w" and ?el = "Suc (fresh w)"
  let ?hu = "h\<lparr>composites := AList.update k e (composites h)\<rparr>"
  from cs obtain w3 r w4 where
    3: "fresh w3 = Suc (Suc (fresh w))" "keeps_below (fresh w) w w3"
      "stores w3 = (stores w)(fresh w \<mapsto> \<lparr>isDisposed = False, toDispose = [c]\<rparr>)"
      "elements w3 ?el \<noteq> None" "parent_of w3 ?el = None"
      "calls w3 = calls w" "instantiations w3 = instantiations w"
    and ui: "create_ui c ?s ?el w3 = (r, w4)"
    and rest: "case r of
       Inl x \<Rightarrow> h' = h \<and> cleanup (Some ?s) (Some ?el) w4 = (res, w')
     | Inr u \<Rightarrow>
         (\<exists>r5 w5. showComposite ev k ?hu (appendChild (container h) ?el w4) = (r5, h', w5) \<and>
            (case r5 of
               Inl x \<Rightarrow> cleanup (Some ?s) (Some ?el) w5 = (res, w')
             | Inr u \<Rightarrow> res = Inr (Some c) \<and> w' = w5))"
    unfolding e_def by (rule create_and_show_unfold) blast
  have st3: "stores w3 ?s = Some \<lparr>isDisposed = False, toDispose = [c]\<rparr>"
    by (simp add: 3(3))
  have k4: "keeps_below ?s w w4"
    using keeps_below_trans [OF 3(2) keeps_below_create_ui [OF ui]] by simp
  show ?thesis
  proof (cases "Create ?el \<in> set (faults c) \<or> UpdateStyles \<in> set (faults c)")
    case True
    note F = create_ui_failed [OF True st3 ui]
    from F(1) rest have h': "h' = h" and cl: "cleanup (Some ?s) (Some ?el) w4 = (res, w')"
      by auto
    have d4: "store_isDisposed w4 ?s" by (simp add: F(2) store_isDisposed_def)
    have p4: "parent_of w4 ?el = None" using F(9) 3(5) by simp
    have res: "res = Inr None" "w' = w4"
      using cl cleanup_disposed [OF d4 p4] by simp_all
    obtain cs4 where c4: "calls w4 = calls w @ (oid c, Create ?el) # cs4 @ [(oid c, Dispose)]"
      using F(3) 3(6) by auto
    have "(oid c, Create ?el) \<in> set (new_calls w w')" "(oid c, Dispose) \<in> set (new_calls w w')"
      by (simp_all add: new_calls_def res(2) c4)
    moreover have "elements w' ?el \<noteq> None" using F(6) [of ?el] 3(4) res(2) by simp
    moreover have "fresh w' = Suc (Suc (fresh w))" "instantiations w' = instantiations w"
      using F(4,5) 3(1,7) res(2) by simp_all
    moreover have "stores w' ?s = Some \<lparr>isDisposed = True, toDispose = []\<rparr>"
      by (simp add: res(2) F(2))
    ultimately show ?thesis
      using True k4 res h' p4 by simp
  next
    case False
    then have nf: "Create ?el \<notin> set (faults c)" "UpdateStyles \<notin> set (faults c)" by simp_all
    have r: "r = Inr ()"
      and w4: "w4 = w3\<lparr>calls := calls w3 @ [(oid c, Create ?el), (oid c, UpdateStyles)]\<rparr>"
      using ui create_ui_ok [OF nf, of ?s w3] by simp_all
    let ?w4 = "appendChild (container h) ?el w4"
    from rest r obtain r5 w5 where
      sh: "showComposite ev k ?hu ?w4 = (r5, h', w5)"
      and r5: "case r5 of
               Inl x \<Rightarrow> cleanup (Some ?s) (Some ?el) w5 = (res, w')
             | Inr u \<Rightarrow> res = Inr (Some c) \<and> w' = w5"
      by auto
    note f5 = frame_facts [OF showComposite_frame [OF sh]]
    note hf = showComposite_fields [OF sh]
    have mk: "map_of (composites ?hu) k = Some e" by (simp add: update_conv')
    have el4: "elements w4 ?el \<noteq> None" using 3(4) by (simp add: w4)
    have k4': "keeps_below ?s w ?w4"
    proof -
      have "keeps_below ?s w4 ?w4"
        unfolding appendChild_def by (rule keeps_below_update_new) simp
      then show ?thesis using k4 keeps_below_trans by blast
    qed
    have k5: "keeps_below ?s w w5"
      using keeps_below_trans [OF k4' frame_keeps_below [OF showComposite_frame [OF sh]]] .
    have fr5: "fresh w5 = Suc (Suc (fresh w))"
      using f5(2) 3(1) by (simp add: appendChild_effect w4)
    have in5: "instantiations w5 = instantiations w"
      using f5(3) 3(7) by (simp add: appendChild_effect w4)
    have st5: "stores w5 ?s = Some \<lparr>isDisposed = False, toDispose = [c]\<rparr>"
      using f5(1) st3 by (simp add: appendChild_effect w4)
    have el5: "elements w5 ?el \<noteq> None"
      using f5(4) [of ?el] el4 by (simp add: appendChild_effect)
    have pa5: "parent_of w5 ?el = Some (container h)"
      using f5(5) [of ?el] el4 by (simp add: appendChild_effect)
    obtain cs5 where c5: "calls w5 = calls w @ (oid c, Create ?el) # cs5"
      using showComposite_frame [OF sh] 3(6) by (auto simp: frame_def appendChild_effect w4)
    have th: "(r5 = Inr ()) = (\<not> show_throws ev k e h)"
      using showComposite_result [OF sh mk] by simp
    show ?thesis
    proof (cases "show_throws ev k e h")
      case True
      then obtain x where x: "r5 = Inl x" using th by (cases r5) auto
      then have cl: "cleanup (Some ?s) (Some ?el) w5 = (res, w')" using r5 by simp
      have h': "h' = ?hu" using showComposite_thrown [OF sh [unfolded x]] by simp
      note L = cleanup_live [OF st5 cl]
      have "keeps_below ?s w w'"
        using keeps_below_trans [OF k5 keeps_below_cleanup [OF cl]] by simp
      moreover have "(oid c, Create ?el) \<in> set (new_calls w w')"
        "(oid c, Dispose) \<in> set (new_calls w w')"
        by (simp_all add: new_calls_def L(3) c5)
      moreover have "elements w' ?el \<noteq> None" using L(6) [of ?el] el5 by simp
      moreover have "fresh w' = Suc (Suc (fresh w))" "instantiations w' = instantiations w"
        using L(4,5) fr5 in5 by simp_all
      moreover have "stores w' ?s = Some \<lparr>isDisposed = True, toDispose = []\<rparr>"
        by (simp add: L(2))
      moreover have "if Dispose \<in> set (faults c)
             then res = Inl (CompositeError (oid c) Dispose) \<and>
                  parent_of w' ?el = Some (container h)
             else res = Inr None \<and> parent_of w' ?el = None"
        using L(1,9) pa5 by simp
      ultimately show ?thesis
        using False True h' by simp
    next
      case nt: False
      then have r5': "r5 = Inr ()" using th by simp
      then have res: "res = Inr (Some c)" "w' = w5" using r5 by simp_all
      have h': "h' = ?hu\<lparr>currentCompositeId := Some k\<rparr>"
        using showComposite_shown [OF sh [unfolded r5'] mk] by simp
      have "\<exists>ws. keeps_below ?s w ws \<and> showComposite ev k ?hu ws = (Inr (), h', w')"
        using k4' sh r5' res(2) by blast
      moreover have "(oid c, Create ?el) \<in> set (new_calls w w')"
        by (simp add: new_calls_def res(2) c5)
      ultimately show ?thesis
        using False nt res h' k5 fr5 in5 el5 st5 pa5 by simp
    qed
  qed
qed

lemma openComposite_resume_unfold:
  assumes "openComposite_resume ev k a h w = (res, h', w')"
  shows "creatingComposites h' = creatingComposites h - {k} \<and>
         (case a of
            Inr (Some c) \<Rightarrow>
              (\<exists>h1. create_and_show ev k c h w = (res, h1, w') \<and>
                 h' = h1\<lparr>creatingComposites := creatingComposites h1 - {k}\<rparr>)
          | _ \<Rightarrow> res = Inr None \<and> w' = w \<and>
                 h' = h\<lparr>creatingComposites := creatingComposites h - {k}\<rparr>)"
proof (cases a)
  case (Inl x)
  then show ?thesis using assms by (auto simp: openComposite_resume_def)
next
  case (Inr y)
  show ?thesis
  proof (cases y)
    case None
    then show ?thesis using assms Inr by (auto simp: openComposite_resume_def)
  next
    case (Some c)
    obtain r1 h1 w1 where cs: "create_and_show ev k c h w = (r1, h1, w1)"
      using prod_cases3 by blast
    have cr: "creatingComposites h1 = creatingComposites h"
      using create_and_show_effect [OF cs] by (elim conjE)
    have "res = r1" "w' = w1" "h' = h1\<lparr>creatingComposites := creatingComposites h1 - {k}\<rparr>"
      using assms Inr Some cs by (simp_all add: openComposite_resume_def)
    then show ?thesis
      using Inr Some cs cr by simp
  qed
qed

lemma dispose_entries_evolves: "dispose_entries es w = (r, w') \<Longrightarrow> evolves w w'"
proof (induction es arbitrary: w)
  case Nil
  then show ?case by simp
next
  case (Cons p es)
  obtain k e where p: "p = (k, e)" by fastforce
  obtain r1 w1 where sv: "invoke (composite e) (SetVisible False) w = (r1, w1)" by fastforce
  have e1: "evolves w w1" using frame_evolves [OF frame_invoke [OF sv]] .
  obtain r2 w2 where sd: "store_dispose (disposables e) w1 = (r2, w2)" by fastforce
  have e2: "evolves w w2" using evolves_trans [OF e1 evolves_store_dispose [OF sd]] .
  let ?w3 = "remove_element (entry_container e) w2"
  have e3: "evolves w ?w3" using evolves_trans [OF e2 evolves_remove_element] .
  consider "w' = w1" | "w' = w2" | "dispose_entries es ?w3 = (r, w')"
    using Cons.prems p sv sd by (auto split: sum.splits)
  then show ?case
  proof cases
    case 3
    from Cons.IH [OF this] e3 show ?thesis using evolves_trans by blast
  qed (use e1 e2 in simp_all)
qed

lemma dispose_effect:
  assumes "dispose h w = (r, h', w')"
  shows "evolves w w' \<and> container h' = container h \<and>
         creatingComposites h' = creatingComposites h \<and>
         currentCompositeId h' = currentCompositeId h \<and>
         (composites h' = composites h \<or> composites h' = [])"
proof -
  obtain r1 w1 where de: "dispose_entries (composites h) w = (r1, w1)" by fastforce
  then show ?thesis
    using assms dispose_entries_evolves [OF de]
    by (auto simp: dispose_def split: sum.splits)
qed

lemma layout_frame: "layout d h w = (r, w') \<Longrightarrow> frame w w'"
  by (auto simp: layout_def split: option.splits if_splits dest: frame_invoke)

lemma disposeComposite_effect:
  assumes "disposeComposite k h w = (r, h', w')"
  shows "evolves w w' \<and> container h' = container h \<and>
         creatingComposites h' = creatingComposites h \<and>
         (composites h' = composites h \<or> composites h' = AList.delete k (composites h))"
proof (cases "map_of (composites h) k")
  case None
  then show ?thesis using assms by (simp add: disposeComposite_def)
next
  case (Some e)
  obtain r1 h1 w1 where hd:
    "(if currentCompositeId h = Some k
      then (case hideComposite k h w of
              (Inl x, w1) \<Rightarrow> (Inl x, h, w1)
            | (Inr _, w1) \<Rightarrow> (Inr (), h\<lparr>currentCompositeId := None\<rparr>, w1))
      else (Inr (), h, w)) = (r1, h1, w1)"
    using prod_cases3 by blast
  have 1: "frame w w1" "composites h1 = composites h" "container h1 = container h"
    "creatingComposites h1 = creatingComposites h"
    using hd by (auto split: if_splits prod.splits sum.splits dest: hideComposite_frame)
  obtain r2 w2 where sv: "invoke (composite e) (SetVisible False) w1 = (r2, w2)" by fastforce
  have 2: "frame w w2" using 1(1) frame_invoke [OF sv] frame_trans by blast
  obtain r3 w3 where sd: "store_dispose (disposables e) w2 = (r3, w3)" by fastforce
  have 3: "evolves w w3"
    using evolves_trans [OF frame_evolves [OF 2] evolves_store_dispose [OF sd]] .
  let ?w4 = "remove_element (entry_container e) w3"
  have 4: "evolves w ?w4" using evolves_trans [OF 3 evolves_remove_element] .
  have "(h' = h1 \<and> w' = w1) \<or> (h' = h1 \<and> w' = w2) \<or> (h' = h1 \<and> w' = w3) \<or>
        (h' = h1\<lparr>composites := AList.delete k (composites h1)\<rparr> \<and> w' = ?w4)"
    using assms Some hd sv sd by (auto simp: disposeComposite_def split: sum.splits)
  then show ?thesis
    using 1 2 3 4 frame_evolves by auto
qed

lemma pending_invD:
  assumes "pending_inv h w ps"
  shows "creatingComposites h = fst ` set ps" and "distinct (map fst ps)"
    and "\<And>k. k \<in> fst ` set ps \<Longrightarrow> map_of (composites h) k = None"
    and "\<And>k c. (k, Inr (Some c)) \<in> set ps \<Longrightarrow> oid c < fresh w"
    and "\<And>k c k' e. (k, Inr (Some c)) \<in> set ps \<Longrightarrow> map_of (composites h) k' = Some e \<Longrightarrow>
           oid (composite e) \<noteq> oid c"
    and "\<And>k c k' c'. (k, Inr (Some c)) \<in> set ps \<Longrightarrow> (k', Inr (Some c')) \<in> set ps \<Longrightarrow>
           oid c' = oid c \<Longrightarrow> k' = k"
proof -
  show "creatingComposites h = fst ` set ps" "distinct (map fst ps)"
    using assms by (simp_all add: pending_inv_def)
  show "map_of (composites h) k = None" if "k \<in> fst ` set ps" for k
    using assms that unfolding pending_inv_def by (elim conjE) (erule allE [of _ k], simp)
  have 4: "\<forall>k c. (k, Inr (Some c)) \<in> set ps \<longrightarrow>
        oid c < fresh w \<and>
        (\<forall>k' e. map_of (composites h) k' = Some e \<longrightarrow> oid (composite e) \<noteq> oid c) \<and>
        (\<forall>k' c'. (k', Inr (Some c')) \<in> set ps \<and> oid c' = oid c \<longrightarrow> k' = k)"
    using assms unfolding pending_inv_def by (elim conjE)
  show "oid c < fresh w" if "(k, Inr (Some c)) \<in> set ps" for k c
    using 4 that by blast
  show "oid (composite e) \<noteq> oid c"
    if "(k, Inr (Some c)) \<in> set ps" "map_of (composites h) k' = Some e" for k c k' e
    using 4 that by blast
  show "k' = k"
    if "(k, Inr (Some c)) \<in> set ps" "(k', Inr (Some c')) \<in> set ps" "oid c' = oid c"
    for k c k' c'
    using 4 that by blast
qed

lemma pending_invI:
  assumes "creatingComposites h = fst ` set ps" and "distinct (map fst ps)"
    and "\<And>k. k \<in> fst ` set ps \<Longrightarrow> map_of (composites h) k = None"
    and "\<And>k c. (k, Inr (Some c)) \<in> set ps \<Longrightarrow> oid c < fresh w"
    and "\<And>k c k' e. (k, Inr (Some c)) \<in> set ps \<Longrightarrow> map_of (composites h) k' = Some e \<Longrightarrow>
           oid (composite e) \<noteq> oid c"
    and "\<And>k c k' c'. (k, Inr (Some c)) \<in> set ps \<Longrightarrow> (k', Inr (Some c')) \<in> set ps \<Longrightarrow>
           oid c' = oid c \<Longrightarrow> k' = k"
  shows "pending_inv h w ps"
  unfolding pending_inv_def
  apply (intro conjI allI impI)
  using assms(1) apply simp
  using assms(2) apply simp
  using assms(3) apply simp
  using assms(4) apply blast
  using assms(5) apply blast
  using assms(6) apply blast
  done

lemma pending_inv_remove:
  assumes pi: "pending_inv h w (ps1 @ (k, a) # ps2)"
    and cr: "creatingComposites h' = creatingComposites h - {k}"
    and fr: "fresh w \<le> fresh w'"
    and same: "\<And>k'. k' \<noteq> k \<Longrightarrow> map_of (composites h') k' = map_of (composites h) k'"
    and new: "\<And>e. map_of (composites h') k = Some e \<Longrightarrow>
                (\<exists>c. a = Inr (Some c) \<and> oid (composite e) = oid c)"
  shows "pending_inv h' w' (ps1 @ ps2)"
proof (rule pending_invI)
  note D = pending_invD [OF pi]
  have sub: "set (ps1 @ ps2) \<subseteq> set (ps1 @ (k, a) # ps2)" by auto
  have knot: "k \<notin> fst ` set (ps1 @ ps2)" using D(2) by auto
  have "fst ` set (ps1 @ (k, a) # ps2) = insert k (fst ` set (ps1 @ ps2))" by auto
  then show "creatingComposites h' = fst ` set (ps1 @ ps2)"
    using D(1) cr knot by simp
  show "distinct (map fst (ps1 @ ps2))" using D(2) by auto
  show "map_of (composites h') k' = None" if m: "k' \<in> fst ` set (ps1 @ ps2)" for k'
  proof -
    have "k' \<noteq> k" using m knot by auto
    moreover have "map_of (composites h) k' = None"
      using D(3) [of k'] m by auto
    ultimately show ?thesis using same by simp
  qed
  show "oid c < fresh w'" if m: "(k', Inr (Some c)) \<in> set (ps1 @ ps2)" for k' c
    using D(4) [of k' c] m fr by auto
  show "oid (composite e) \<noteq> oid c"
    if m: "(k', Inr (Some c)) \<in> set (ps1 @ ps2)" and me: "map_of (composites h') k'' = Some e"
    for k' c k'' e
  proof (cases "k'' = k")
    case True
    obtain c0 where c0: "a = Inr (Some c0)" "oid (composite e) = oid c0"
      using new [of e] me True by auto
    have "k' \<noteq> k" using m knot by force
    moreover have "(k, Inr (Some c0)) \<in> set (ps1 @ (k, a) # ps2)" using c0 by simp
    moreover have "(k', Inr (Some c)) \<in> set (ps1 @ (k, a) # ps2)" using m by auto
    ultimately show ?thesis using D(6) [of k' c k c0] c0 by auto
  next
    case False
    have "(k', Inr (Some c)) \<in> set (ps1 @ (k, a) # ps2)" using m by auto
    then show ?thesis using same [OF False] me D(5) [of k' c k'' e] by simp
  qed
  show "k'' = k'"
    if "(k', Inr (Some c)) \<in> set (ps1 @ ps2)" "(k'', Inr (Some c')) \<in> set (ps1 @ ps2)"
      "oid c' = oid c"
    for k' c k'' c'
    using D(6) [of k' c k'' c'] that by auto
qed

lemma pending_inv_add:
  assumes pi: "pending_inv h w ps" and kn: "k \<notin> creatingComposites h"
    and cr: "creatingComposites h' = insert k (creatingComposites h)"
    and nk: "map_of (composites h') k = None"
    and sub: "\<And>k' e. map_of (composites h') k' = Some e \<Longrightarrow> map_of (composites h) k' = Some e"
    and fr: "fresh w \<le> fresh w'"
    and new: "\<And>c. a = Inr (Some c) \<Longrightarrow> oid c = fresh w \<and> fresh w' = Suc (fresh w)"
    and ok: "\<And>k' e. map_of (composites h) k' = Some e \<Longrightarrow> oid (composite e) < fresh w"
  shows "pending_inv h' w' (ps @ [(k, a)])"
proof (rule pending_invI)
  note D = pending_invD [OF pi]
  have kn': "k \<notin> fst ` set ps" using D(1) kn by simp
  have "fst ` set (ps @ [(k, a)]) = insert k (fst ` set ps)" by auto
  then show "creatingComposites h' = fst ` set (ps @ [(k, a)])"
    using D(1) cr by simp
  show "distinct (map fst (ps @ [(k, a)]))"
    using D(2) kn' by auto
  show "map_of (composites h') k' = None" if m: "k' \<in> fst ` set (ps @ [(k, a)])" for k'
  proof (cases "k' = k")
    case True
    then show ?thesis using nk by simp
  next
    case False
    then have "k' \<in> fst ` set ps" using m by auto
    then have "map_of (composites h) k' = None" by (rule D(3))
    then show ?thesis using sub [of k'] by (cases "map_of (composites h') k'") auto
  qed
  have lt: "((k', Inr (Some c)) \<in> set ps \<and> oid c < fresh w) \<or>
      ((k', Inr (Some c)) \<notin> set ps \<and> oid c = fresh w \<and> fresh w' = Suc (fresh w) \<and>
       k' = k \<and> a = Inr (Some c))"
    if m: "(k', Inr (Some c)) \<in> set (ps @ [(k, a)])" for k' c
  proof (cases "(k', Inr (Some c)) \<in> set ps")
    case True
    then show ?thesis using D(4) [of k' c] by simp
  next
    case False
    then have "k' = k" "a = Inr (Some c)" using m by auto
    then show ?thesis using new [of c] False by simp
  qed
  show "oid c < fresh w'" if m: "(k', Inr (Some c)) \<in> set (ps @ [(k, a)])" for k' c
    using lt [OF m] fr by auto
  show "oid (composite e) \<noteq> oid c"
    if m: "(k', Inr (Some c)) \<in> set (ps @ [(k, a)])" and me: "map_of (composites h') k'' = Some e"
    for k' c k'' e
  proof (cases "(k', Inr (Some c)) \<in> set ps")
    case True
    then show ?thesis using D(5) [OF True sub [OF me]] by simp
  next
    case False
    then have "oid c = fresh w" using lt [OF m] m by auto
    then show ?thesis using ok [OF sub [OF me]] by simp
  qed
  show "k'' = k'"
    if m1: "(k', Inr (Some c)) \<in> set (ps @ [(k, a)])"
      and m2: "(k'', Inr (Some c')) \<in> set (ps @ [(k, a)])" and eq: "oid c' = oid c"
    for k' c k'' c'
  proof (cases "(k', Inr (Some c)) \<in> set ps"; cases "(k'', Inr (Some c')) \<in> set ps")
    assume a: "(k', Inr (Some c)) \<in> set ps" "(k'', Inr (Some c')) \<in> set ps"
    show ?thesis using D(6) [OF a eq] .
  next
    assume a: "(k', Inr (Some c)) \<in> set ps" "(k'', Inr (Some c')) \<notin> set ps"
    then have "oid c' = fresh w" using lt [OF m2] m2 by auto
    moreover have "oid c < fresh w" using D(4) a(1) by blast
    ultimately show ?thesis using eq by simp
  next
    assume a: "(k', Inr (Some c)) \<notin> set ps" "(k'', Inr (Some c')) \<in> set ps"
    then have "oid c = fresh w" using lt [OF m1] m1 by auto
    moreover have "oid c' < fresh w" using D(4) a(2) by blast
    ultimately show ?thesis using eq by simp
  next
    assume a: "(k', Inr (Some c)) \<notin> set ps" "(k'', Inr (Some c')) \<notin> set ps"
    then show ?thesis using m1 m2 by auto
  qed
qed

lemma host_invD:
  assumes "host_inv el (h, w, ps)"
  shows "container h = el" "el < fresh w" "elements w el \<noteq> None"
    "entries_inv (composites h) w" "pending_inv h w ps"
  using assms by (simp_all add: host_inv_def)

lemma entries_invD:
  assumes "entries_inv cs w"
  shows "distinct (map fst cs)"
    and "\<And>k e. map_of cs k = Some e \<Longrightarrow> entry_ok w e"
    and "\<And>k k' e e'. map_of cs k = Some e \<Longrightarrow> map_of cs k' = Some e' \<Longrightarrow>
           entry_container e = entry_container e' \<or> oid (composite e) = oid (composite e') \<or>
           disposables e = disposables e' \<Longrightarrow>
           k = k'"
proof -
  show "distinct (map fst cs)" using assms by (simp add: entries_inv_def)
  have 2: "\<forall>k e. map_of cs k = Some e \<longrightarrow> entry_ok w e"
    using assms unfolding entries_inv_def by (elim conjE)
  show "entry_ok w e" if "map_of cs k = Some e" for k e
    using 2 that by blast
  have 3: "\<forall>k k' e e'. map_of cs k = Some e \<and> map_of cs k' = Some e' \<and>
        (entry_container e = entry_container e' \<or>
         oid (composite e) = oid (composite e') \<or>
         disposables e = disposables e') \<longrightarrow> k = k'"
    using assms unfolding entries_inv_def by (elim conjE)
  show "k = k'"
    if "map_of cs k = Some e" "map_of cs k' = Some e'"
      "entry_container e = entry_container e' \<or> oid (composite e) = oid (composite e') \<or>
       disposables e = disposables e'"
    for k k' e e'
    using 3 that by blast
qed

lemma map_of_shrink:
  assumes "cs' = cs \<or> cs' = AList.delete k cs \<or> cs' = []" and "map_of cs' k' = Some e"
  shows "map_of cs k' = Some e"
  using assms by (elim disjE) (simp_all add: delete_conv' split: if_splits)

lemma host_inv_constructed:
  assumes "elements w0 el \<noteq> None" and "el < fresh w0"
    and "new_EmbeddedCompositeHost el loc w0 = (h, w)"
  shows "host_inv el (h, w, [])"
  using assms
  by (auto simp: host_inv_def new_EmbeddedCompositeHost_def pending_inv_def update_element_def)

lemma host_inv_opened:
  assumes hi: "host_inv el (h, w, ps)" and op: "openComposite_begin ev k h w = (r, h', w')"
  shows "host_inv el (h', w', ps @ (case r of Inr (Awaiting a) \<Rightarrow> [(k, a)] | _ \<Rightarrow> []))"
proof -
  note D = host_invD [OF hi]
  note E = openComposite_begin_effect [OF op, of "fresh w"]
  have ev: "evolves w w'" using E by (simp add: keeps_below_evolves)
  have co: "container h' = container h" using E by simp
  have sh: "composites h' = composites h \<or> composites h' = AList.delete k (composites h)"
    using E by simp
  show ?thesis
  proof (cases "\<exists>a. r = Inr (Awaiting a)")
    case False
    then have cr: "creatingComposites h' = creatingComposites h"
      using E by (auto split: sum.splits progress.splits)
    have "host_inv el (h', w', ps)"
      using host_inv_step [OF hi ev co cr, of k] sh by blast
    moreover have "(case r of Inr (Awaiting a) \<Rightarrow> [(k, a)] | _ \<Rightarrow> []) = []"
      using False by (auto split: sum.splits progress.splits)
    ultimately show ?thesis by simp
  next
    case True
    then obtain a where a: "r = Inr (Awaiting a)" by blast
    have aw: "k \<notin> creatingComposites h"
      "creatingComposites h' = insert k (creatingComposites h)"
      "map_of (composites h') k = None"
      "\<And>c. a = Inr (Some c) \<Longrightarrow> oid c = fresh w \<and> fresh w' = Suc (fresh w)"
      using E a by auto
    have fr: "fresh w \<le> fresh w'" using ev by (simp add: evolves_def)
    have en: "entries_inv (composites h') w'"
      using sh entries_inv_evolves [OF D(4) ev] entries_inv_evolves [OF entries_inv_delete [OF D(4)] ev]
      by auto
    have sub: "map_of (composites h') k' = Some e \<Longrightarrow> map_of (composites h) k' = Some e" for k' e
      using map_of_shrink [of "composites h'" "composites h" k k' e] sh by blast
    have ok: "map_of (composites h) k' = Some e \<Longrightarrow> oid (composite e) < fresh w" for k' e
      using entries_invD(2) [OF D(4)] by (auto simp: entry_ok_def)
    have pe: "pending_inv h' w' (ps @ [(k, a)])"
    proof (rule pending_inv_add [OF D(5) aw(1,2,3) _ fr])
      show "map_of (composites h) k' = Some e" if "map_of (composites h') k' = Some e" for k' e
        using sub that .
      show "oid c = fresh w \<and> fresh w' = Suc (fresh w)" if "a = Inr (Some c)" for c
        using aw(4) that .
      show "oid (composite e) < fresh w" if "map_of (composites h) k' = Some e" for k' e
        using ok that .
    qed
    have "elements w' el \<noteq> None" "el < fresh w'"
      using D(2,3) ev fr by (auto simp: evolves_def)
    then show ?thesis
      using D(1) co en pe a by (simp add: host_inv_def)
  qed
qed

lemma host_inv_resumed:
  assumes hi: "host_inv el (h, w, ps1 @ (k, a) # ps2)"
    and op: "openComposite_resume ev k a h w = (res, h', w')"
  shows "host_inv el (h', w', ps1 @ ps2)"
proof -
  note D = host_invD [OF hi]
  note P = pending_invD [OF D(5)]
  note U = openComposite_resume_unfold [OF op]
  have cr: "creatingComposites h' = creatingComposites h - {k}" using U by simp
  have kn: "map_of (composites h) k = None" using P(3) [of k] by simp
  show ?thesis
  proof (cases "\<exists>c. a = Inr (Some c)")
    case False
    then have r: "w' = w" "h' = h\<lparr>creatingComposites := creatingComposites h - {k}\<rparr>"
      using U by (auto split: sum.splits option.splits)
    have "pending_inv h' w' (ps1 @ ps2)"
      using pending_inv_remove [OF D(5) cr, of w'] r kn by simp
    then show ?thesis using D r by (simp add: host_inv_def)
  next
    case True
    then obtain c where a: "a = Inr (Some c)" by blast
    obtain h1 where cs: "create_and_show ev k c h w = (res, h1, w')"
      and h': "h' = h1\<lparr>creatingComposites := creatingComposites h1 - {k}\<rparr>"
      using U a by auto
    define e where "e = \<lparr>composite = c, entry_container = Suc (fresh w), disposables = fresh w\<rparr>"
    note C = create_and_show_effect [OF cs, folded e_def]
    have kb: "keeps_below (fresh w) w w'" and fr: "fresh w' = Suc (Suc (fresh w))"
      and co: "container h1 = container h"
      and el: "elements w' (Suc (fresh w)) \<noteq> None"
      using C by simp_all
    have ev: "evolves w w'" using kb by (rule keeps_below_evolves)
    have sh: "composites h1 = composites h \<or> composites h1 = AList.update k e (composites h)"
      using C by (auto split: if_splits)
    have st: "\<exists>st. stores w' (fresh w) = Some st \<and> (isDisposed st \<or> toDispose st = [c])"
      using C by (auto split: if_splits)
    have mem: "(k, Inr (Some c)) \<in> set (ps1 @ (k, a) # ps2)" using a by simp
    have oc: "oid c < fresh w" using P(4) [OF mem] .
    have eok: "entry_ok w' e"
      using oc fr el st by (simp add: entry_ok_def e_def)
    have old: "entries_inv (composites h) w'" using entries_inv_evolves [OF D(4) ev] .
    have fresh_e: "entry_container e' \<noteq> entry_container e \<and> oid (composite e') \<noteq> oid (composite e) \<and>
        disposables e' \<noteq> disposables e"
      if m: "map_of (composites h) k' = Some e'" for k' e'
    proof -
      have "entry_ok w e'" using entries_invD(2) [OF D(4) m] .
      then have "entry_container e' < fresh w" "disposables e' < fresh w" by (simp_all add: entry_ok_def)
      moreover have "oid (composite e') \<noteq> oid c" using P(5) [OF mem m] .
      ultimately show ?thesis by (simp add: e_def)
    qed
    have en: "entries_inv (composites h1) w'"
      using sh old entries_inv_update [OF old eok fresh_e] by auto
    have same: "map_of (composites h') k' = map_of (composites h) k'" if "k' \<noteq> k" for k'
      using sh that by (auto simp: h' update_conv')
    have new: "\<exists>c0. a = Inr (Some c0) \<and> oid (composite e0) = oid c0"
      if "map_of (composites h') k = Some e0" for e0
      using sh that kn a by (auto simp: h' update_conv' e_def)
    have fr': "fresh w \<le> fresh w'" using fr by simp
    have pe: "pending_inv h' w' (ps1 @ ps2)"
    proof (rule pending_inv_remove [OF D(5) cr fr'])
      show "map_of (composites h') k' = map_of (composites h) k'" if "k' \<noteq> k" for k'
        using same that .
      show "\<exists>c. a = Inr (Some c) \<and> oid (composite e0) = oid c"
        if "map_of (composites h') k = Some e0" for e0
        using new that .
    qed
    have "elements w' el \<noteq> None" "el < fresh w'"
      using D(2,3) ev fr' by (auto simp: evolves_def)
    then show ?thesis
      using D(1) co en pe by (simp add: host_inv_def h')
  qed
qed

theorem reachable_host_inv:
  assumes "reachable ev el cfg"
  shows "host_inv el cfg"
  using assms
proof (induction rule: reachable.induct)
  case (constructed w0 loc h w)
  then show ?case by (rule host_inv_constructed)
next
  case (opened h w ps k r h' w')
  then show ?case using host_inv_opened by blast
next
  case (resumed h w ps1 k a ps2 res h' w')
  then show ?case using host_inv_resumed by blast
next
  case (composite_disposed h w ps k r h' w')
  note E = disposeComposite_effect [OF composite_disposed.hyps(2)]
  show ?case
    using host_inv_step [OF composite_disposed.IH, of w' h' k] E by blast
next
  case (laid_out h w ps d r w')
  show ?case
    using host_inv_step [OF laid_out.IH frame_evolves [OF layout_frame [OF laid_out.hyps(2)]], of h]
    by simp
next
  case (disposed h w ps r h' w')
  note E = dispose_effect [OF disposed.hyps(2)]
  show ?case
    using host_inv_step [OF disposed.IH, of w' h'] E by blast
qed

lemma new_calls_left:
  assumes "\<exists>cs. calls w1 = calls w @ cs" and "\<exists>cs. calls w2 = calls w1 @ cs"
    and "x \<in> set (new_calls w w1)"
  shows "x \<in> set (new_calls w w2)"
  using assms by (auto simp: new_calls_def)

lemma new_calls_right:
  assumes "\<exists>cs. calls w1 = calls w @ cs" and "\<exists>cs. calls w2 = calls w1 @ cs"
    and "x \<in> set (new_calls w1 w2)"
  shows "x \<in> set (new_calls w w2)"
  using assms by (auto simp: new_calls_def)

lemma new_calls_same [simp]: "new_calls w w = []"
  by (simp add: new_calls_def)

lemma hideComposite_thrown:
  assumes "hideComposite p h w = (Inl x, w')"
  shows "\<exists>i. x = CompositeError i (SetVisible False) \<and> (i, SetVisible False) \<in> set (new_calls w w')"
  using assms
  by (auto simp: hideComposite_def invoke_def new_calls_def split: option.splits if_splits sum.splits)

lemma hideComposite_hidden:
  assumes "hideComposite p h w = (Inr u, w')" and "map_of (composites h) p = Some ep"
  shows "(oid (composite ep), SetVisible False) \<in> set (new_calls w w') \<and>
         (elements w (entry_container ep) \<noteq> None \<longrightarrow>
            display_of w' (entry_container ep) = Some ''none'')"
  using assms
  by (auto simp: hideComposite_def invoke_def new_calls_def display_of_def update_element_def
      split: if_splits sum.splits)

lemma reuse_existing_live:
  assumes "map_of (composites h) k = Some e" and "\<not> store_isDisposed w (disposables e)"
  shows "reuse_existing ev k h w =
     (case showComposite ev k h w of
        (Inl x, h1, w1) \<Rightarrow> (Some (Inl x), h1, w1)
      | (Inr _, h1, w1) \<Rightarrow> (Some (Inr (composite e)), h1, w1))"
  using assms by (simp add: reuse_existing_def)

lemma show_live_entry:
  assumes sh: "showComposite ev k h w = (r, h', w')"
    and m: "map_of (composites h) k = Some e"
    and el: "elements w (entry_container e) \<noteq> None"
  shows "(r = Inr () \<and> currentCompositeId h' = Some k \<and>
          display_of w' (entry_container e) = Some ''block'' \<and>
          (oid (composite e), SetVisible True) \<in> set (new_calls w w')) \<or>
         (\<exists>i c. r = Inl (CompositeError i c) \<and> (i, c) \<in> set (new_calls w w'))"
proof (cases r)
  case (Inl x)
  then show ?thesis using showComposite_thrown [of ev k h w x h' w'] sh by auto
next
  case (Inr u)
  then show ?thesis using showComposite_shown [of ev k h w u h' w' e] sh m el by auto
qed

lemma reachable_openComposite:
  assumes re: "reachable ev host_el (h, w, ps)" and op: "openComposite ev k h w = (r, h', w')"
  shows "reachable ev host_el (h', w', ps)"
proof -
  obtain r1 h1 w1 where bg: "openComposite_begin ev k h w = (r1, h1, w1)"
    using prod_cases3 by blast
  note st = reachable.opened [OF re bg]
  show ?thesis
  proof (cases "\<exists>a. r1 = Inr (Awaiting a)")
    case False
    then have "(case r1 of Inr (Awaiting a) \<Rightarrow> [(k, a)] | _ \<Rightarrow> []) = []"
      by (auto split: sum.splits progress.splits)
    moreover have "h' = h1" "w' = w1"
      using op bg False by (auto simp: openComposite_def split: sum.splits progress.splits)
    ultimately show ?thesis using st by simp
  next
    case True
    then obtain a where a: "r1 = Inr (Awaiting a)" by blast
    have rs: "openComposite_resume ev k a h1 w1 = (r, h', w')"
      using op bg a by (simp add: openComposite_def)
    have "reachable ev host_el (h1, w1, ps @ (k, a) # [])"
      using st a by simp
    then show ?thesis using reachable.resumed [OF _ rs, of host_el ps "[]"] by simp
  qed
qed

lemma dispose_entries_keeps:
  assumes "dispose_entries es w = (r, w')"
  shows "(store_isDisposed w s \<longrightarrow> store_isDisposed w' s) \<and>
         (parent_of w x = None \<longrightarrow> parent_of w' x = None) \<and>
         (\<exists>cs. calls w' = calls w @ cs)"
  using assms
proof (induction es arbitrary: w)
  case Nil
  then show ?case by simp
next
  case (Cons p es)
  obtain k e where p: "p = (k, e)" by fastforce
  obtain r1 w1 where sv: "invoke (composite e) (SetVisible False) w = (r1, w1)" by fastforce
  note F = frame_facts [OF frame_invoke [OF sv]]
  have c1: "\<exists>cs. calls w1 = calls w @ cs" using frame_invoke [OF sv] by (simp add: frame_def)
  obtain r2 w2 where sd: "store_dispose (disposables e) w1 = (r2, w2)" by fastforce
  note S = store_dispose_effect [OF sd]
  let ?w3 = "remove_element (entry_container e) w2"
  have a2: "store_isDisposed w s \<longrightarrow> store_isDisposed w2 s"
    using F(6) S(8) [of s] by simp
  have b2: "parent_of w x = None \<longrightarrow> parent_of w2 x = None"
    using F(5) [of x] S(4) by simp
  have c2: "\<exists>cs. calls w2 = calls w @ cs" using c1 S(9) by auto
  have b3: "parent_of w x = None \<longrightarrow> parent_of ?w3 x = None"
    using b2 by (cases "x = entry_container e") (simp_all add: remove_element_other)
  consider "w' = w1" | "w' = w2" | "dispose_entries es ?w3 = (r, w')"
    using Cons.prems p sv sd by (auto split: sum.splits)
  then show ?case
  proof cases
    case 1
    then show ?thesis using F c1 by simp
  next
    case 2
    then show ?thesis using a2 b2 c2 by simp
  next
    case 3
    note IH = Cons.IH [OF 3]
    show ?thesis using IH a2 b3 c2 by auto
  qed
qed

lemma dispose_entries_result:
  assumes de: "dispose_entries es w = (r, w')"
    and dk: "distinct (map fst es)"
    and inj: "\<forall>k e k' e'. (k, e) \<in> set es \<and> (k', e') \<in> set es \<and>
               disposables e = disposables e' \<longrightarrow> k = k'"
    and ok: "\<forall>k e. (k, e) \<in> set es \<longrightarrow>
               (\<exists>st. stores w (disposables e) = Some st \<and>
                  (isDisposed st \<or> toDispose st = [composite e]))"
  shows "(r = Inr ()) =
         (\<forall>k e. (k, e) \<in> set es \<longrightarrow>
            SetVisible False \<notin> set (faults (composite e)) \<and>
            (store_isDisposed w (disposables e) \<or> Dispose \<notin> set (faults (composite e))))"
  using de dk inj ok
proof (induction es arbitrary: w)
  case Nil
  then show ?case by simp
next
  case (Cons p es)
  obtain k0 e0 where p: "p = (k0, e0)" by fastforce
  define w1 where "w1 = w\<lparr>calls := calls w @ [(oid (composite e0), SetVisible False)]\<rparr>"
  have sv: "invoke (composite e0) (SetVisible False) w =
      (if SetVisible False \<in> set (faults (composite e0))
       then Inl (CompositeError (oid (composite e0)) (SetVisible False)) else Inr (), w1)"
    by (simp add: invoke_def w1_def)
  obtain st where st: "stores w (disposables e0) = Some st"
    "isDisposed st \<or> toDispose st = [composite e0]"
    using Cons.prems(4) p by auto
  have st1: "stores w1 = stores w" by (simp add: w1_def)
  obtain r2 w2 where sd: "store_dispose (disposables e0) w1 = (r2, w2)" by fastforce
  note S = store_dispose_effect [OF sd]
  have r2: "(r2 = Inr ()) =
      (store_isDisposed w (disposables e0) \<or> Dispose \<notin> set (faults (composite e0)))"
  proof (cases "isDisposed st")
    case True
    then have "store_isDisposed w1 (disposables e0)"
      using st(1) by (simp add: store_isDisposed_def st1)
    then show ?thesis
      using sd True st(1) by (simp add: store_dispose_idle store_isDisposed_def)
  next
    case False
    then have "stores w1 (disposables e0) = Some \<lparr>isDisposed = False, toDispose = [composite e0]\<rparr>"
      using st by (cases st) (simp add: st1)
    from store_dispose_single [OF this] sd False st(1) show ?thesis
      by (auto simp: store_isDisposed_def split: if_splits)
  qed
  let ?w3 = "remove_element (entry_container e0) w2"
  show ?case
  proof (cases "SetVisible False \<in> set (faults (composite e0))")
    case True
    then have "r \<noteq> Inr ()" using Cons.prems(1) p sv by auto
    then show ?thesis using True p by auto
  next
    case nf: False
    show ?thesis
    proof (cases "r2 = Inr ()")
      case False
      then have "r \<noteq> Inr ()" using Cons.prems(1) p sv nf sd by (cases r2) auto
      then show ?thesis using False r2 p by auto
    next
      case True
      then have rest: "dispose_entries es ?w3 = (r, w')"
        using Cons.prems(1) p sv nf sd by simp
      have dk': "distinct (map fst es)" using Cons.prems(2) by simp
      have inj': "\<forall>k e k' e'. (k, e) \<in> set es \<and> (k', e') \<in> set es \<and>
               disposables e = disposables e' \<longrightarrow> k = k'"
        using Cons.prems(3) by (meson list.set_intros(2))
      have other: "disposables e \<noteq> disposables e0" if "(k, e) \<in> set es" for k e
      proof -
        have "k \<noteq> k0" using Cons.prems(2) p that by force
        moreover have "(k0, e0) \<in> set (p # es)" "(k, e) \<in> set (p # es)" using p that by simp_all
        ultimately show ?thesis using Cons.prems(3) by blast
      qed
      have same: "stores ?w3 (disposables e) = stores w (disposables e)"
        if "(k, e) \<in> set es" for k e
        using S(7) [OF other [OF that]] by (simp add: st1)
      have ok': "\<forall>k e. (k, e) \<in> set es \<longrightarrow>
               (\<exists>st. stores ?w3 (disposables e) = Some st \<and>
                  (isDisposed st \<or> toDispose st = [composite e]))"
        using Cons.prems(4) same by (metis list.set_intros(2))
      note IH = Cons.IH [OF rest dk' inj' ok']
      have "store_isDisposed ?w3 (disposables e) = store_isDisposed w (disposables e)"
        if "(k, e) \<in> set es" for k e
        using same [OF that] by (simp add: store_isDisposed_def)
      then show ?thesis
        using IH nf True r2 p by auto
    qed
  qed
qed

lemma dispose_entries_post:
  assumes de: "dispose_entries es w = (Inr u, w')"
    and dk: "distinct (map fst es)"
    and inj: "\<forall>k e k' e'. (k, e) \<in> set es \<and> (k', e') \<in> set es \<and>
               disposables e = disposables e' \<longrightarrow> k = k'"
    and ok: "\<forall>k e. (k, e) \<in> set es \<longrightarrow>
               (\<exists>st. stores w (disposables e) = Some st \<and>
                  (isDisposed st \<or> toDispose st = [composite e]))"
    and m: "(k, e) \<in> set es"
  shows "(oid (composite e), SetVisible False) \<in> set (new_calls w w') \<and>
         store_isDisposed w' (disposables e) \<and>
         parent_of w' (entry_container e) = None \<and>
         (store_isDisposed w (disposables e) \<or>
          (oid (composite e), Dispose) \<in> set (new_calls w w'))"
  using de dk inj ok m
proof (induction es arbitrary: w)
  case Nil
  then show ?case by simp
next
  case (Cons p es)
  obtain k0 e0 where p: "p = (k0, e0)" by fastforce
  obtain r1 w1 where sv: "invoke (composite e0) (SetVisible False) w = (r1, w1)" by fastforce
  have w1: "w1 = w\<lparr>calls := calls w @ [(oid (composite e0), SetVisible False)]\<rparr>"
    using sv by (auto simp: invoke_def)
  have st1: "stores w1 = stores w" by (simp add: w1)
  obtain r2 w2 where sd: "store_dispose (disposables e0) w1 = (r2, w2)" by fastforce
  note S = store_dispose_effect [OF sd]
  let ?w3 = "remove_element (entry_container e0) w2"
  have r1: "r1 = Inr ()" and r2: "r2 = Inr ()" and rest: "dispose_entries es ?w3 = (Inr u, w')"
    using Cons.prems(1) p sv sd by (auto split: sum.splits)
  note K = dispose_entries_keeps [OF rest]
  obtain cs2 where cs2: "calls w2 = calls w1 @ cs2" using S(9) by auto
  have c2: "\<exists>cs. calls ?w3 = calls w @ cs" by (simp add: cs2 w1)
  have c3: "\<exists>cs. calls w' = calls ?w3 @ cs" using K by blast
  have okw: "\<exists>st. stores w (disposables e') = Some st \<and>
                  (isDisposed st \<or> toDispose st = [composite e'])"
    if me: "(k', e') \<in> set (p # es)" for k' e'
    using Cons.prems(4) me by blast
  show ?case
  proof (cases "(k, e) = (k0, e0)")
    case True
    then have e: "e = e0" by simp
    obtain st where st: "stores w (disposables e0) = Some st"
      "isDisposed st \<or> toDispose st = [composite e0]"
      using okw [of k0 e0] p by auto
    have a: "(oid (composite e0), SetVisible False) \<in> set (new_calls w ?w3)"
      by (simp add: new_calls_def cs2 w1)
    have b: "store_isDisposed ?w3 (disposables e0)"
      using S(6) st(1) by (simp add: st1)
    have c: "parent_of ?w3 (entry_container e0) = None" by simp
    have d: "store_isDisposed w (disposables e0) \<or>
        (oid (composite e0), Dispose) \<in> set (new_calls w ?w3)"
    proof (cases "isDisposed st")
      case True
      then show ?thesis using st(1) by (simp add: store_isDisposed_def)
    next
      case False
      then have "stores w1 (disposables e0) = Some \<lparr>isDisposed = False, toDispose = [composite e0]\<rparr>"
        using st by (cases st) (simp add: st1)
      from store_dispose_single [OF this] sd
      have "calls w2 = calls w1 @ [(oid (composite e0), Dispose)]" by auto
      then show ?thesis by (simp add: new_calls_def w1)
    qed
    show ?thesis
      unfolding e
      using a b c d K [of "disposables e0" "entry_container e0"]
        new_calls_left [OF c2 c3] by blast
  next
    case False
    then have mem: "(k, e) \<in> set es" using Cons.prems(5) p by auto
    have kk: "k \<noteq> k0" using Cons.prems(2) p mem by force
    have "(k0, e0) \<in> set (p # es)" "(k, e) \<in> set (p # es)" using p mem by simp_all
    then have ds: "disposables e \<noteq> disposables e0"
      using Cons.prems(3) kk by blast
    have dk': "distinct (map fst es)" using Cons.prems(2) by simp
    have inj': "\<forall>k e k' e'. (k, e) \<in> set es \<and> (k', e') \<in> set es \<and>
               disposables e = disposables e' \<longrightarrow> k = k'"
      using Cons.prems(3) by (meson list.set_intros(2))
    have ok': "\<forall>k' e'. (k', e') \<in> set es \<longrightarrow>
                (\<exists>st. stores ?w3 (disposables e') = Some st \<and>
                  (isDisposed st \<or> toDispose st = [composite e']))"
    proof (intro allI impI)
      fix k' e'
      assume me: "(k', e') \<in> set es"
      obtain st where st: "stores w (disposables e') = Some st"
        "isDisposed st \<or> toDispose st = [composite e']"
        using okw [of k' e'] me by auto
      show "\<exists>st. stores ?w3 (disposables e') = Some st \<and>
                  (isDisposed st \<or> toDispose st = [composite e'])"
      proof (cases "disposables e' = disposables e0")
        case True
        then have "store_isDisposed ?w3 (disposables e')"
          using S(6) st(1) by (simp add: st1)
        then show ?thesis by (auto simp: store_isDisposed_def split: option.splits)
      next
        case False
        then show ?thesis using S(7) [OF False] st by (simp add: st1)
      qed
    qed
    note IH = Cons.IH [OF rest dk' inj' ok' mem]
    have same: "store_isDisposed ?w3 (disposables e) = store_isDisposed w (disposables e)"
      using S(7) [OF ds] by (simp add: store_isDisposed_def st1)
    show ?thesis
      using IH same new_calls_right [OF c2 c3] by blast
  qed
qed

lemma showComposite_hides_previous:
  assumes sh: "showComposite ev k h w = (Inr u, h', w')" and mk: "map_of (composites h) k = Some e"
    and cur: "currentCompositeId h = Some p" "p \<noteq> []" "p \<noteq> k"
    and mp: "map_of (composites h) p = Some ep"
    and diff: "entry_container ep \<noteq> entry_container e"
    and el: "elements w (entry_container ep) \<noteq> None"
  shows "(oid (composite ep), SetVisible False) \<in> set (new_calls w w') \<and>
         display_of w' (entry_container ep) = Some ''none''"
proof -
  obtain r1 w1 where hd: "hideComposite p h w = (r1, w1)" by fastforce
  have r1: "r1 = Inr ()"
    using sh mk cur hd by (auto simp: showComposite_def split: sum.splits)
  note H = hideComposite_hidden [OF hd [unfolded r1] mp]
  define w2 where "w2 = update_element (entry_container e)
      (\<lambda>d. d\<lparr>style_display := ''block'', style_height := ''100%''\<rparr>) w1"
  have w': "w' = w2\<lparr>calls := calls w2 @ [(oid (composite e), SetVisible True),
        (oid (composite e), Layout (getBoundingClientRect ev (container h)))]\<rparr>"
    using sh mk cur hd r1 unfolding showComposite_def w2_def
    by (auto simp: invoke_def split: sum.splits if_splits)
  have c1: "\<exists>cs. calls w1 = calls w @ cs"
    using hideComposite_frame [OF hd] by (simp add: frame_def)
  have c2: "\<exists>cs. calls w' = calls w1 @ cs" by (simp add: w' w2_def)
  have "display_of w' (entry_container ep) = display_of w1 (entry_container ep)"
    using diff by (simp add: w' w2_def display_of_def update_element_def)
  then show ?thesis
    using H el new_calls_left [OF c1 c2] by simp
qed

lemma keeps_below_mono: "keeps_below n w w' \<Longrightarrow> m \<le> n \<Longrightarrow> keeps_below m w w'"
  by (auto simp: keeps_below_def)

lemma hide_and_open_success:
  assumes ho: "hide_and_open ev k h w = (r, h1, w1)"
  shows "(\<exists>x. r = Inl x) \<or> r = Inr (Returned None) \<or>
         (\<exists>e. r = Inr (Returned (Some (composite e))) \<and> map_of (composites h) k = Some e \<and>
            (\<exists>ws. frame w ws \<and> showComposite ev k h ws = (Inr (), h1, w1))) \<or>
         (\<exists>a. r = Inr (Awaiting a) \<and> keeps_below n w w1 \<and>
            currentCompositeId h1 = currentCompositeId h \<and> container h1 = container h \<and>
            (\<forall>p. p \<noteq> k \<longrightarrow> map_of (composites h1) p = map_of (composites h) p))"
proof -
  obtain r0 w0 where hd:
    "(case currentCompositeId h of None \<Rightarrow> (Inr (), w)
      | Some cur \<Rightarrow> if cur \<noteq> [] then hideComposite cur h w else (Inr (), w)) = (r0, w0)"
    by fastforce
  have f0: "frame w w0"
    using hd by (auto split: option.splits if_splits dest: hideComposite_frame)
  show ?thesis
  proof (cases r0)
    case (Inl x)
    then show ?thesis using ho hd by (auto simp: hide_and_open_def)
  next
    case (Inr u)
    obtain r2 h2 w2 where re: "reuse_existing ev k h w0 = (r2, h2, w2)"
      using prod_cases3 by blast
    note E = reuse_existing_effect [OF re]
    show ?thesis
    proof (cases r2)
      case None
      then have la: "lookup_and_instantiate ev k h2 w2 = (r, h1, w1)"
        using ho hd Inr re by (auto simp: hide_and_open_def)
      note L = lookup_and_instantiate_effect [OF la, of n]
      have w2: "w2 = w0" and c2: "currentCompositeId h2 = currentCompositeId h"
        using E None by simp_all
      have m2: "map_of (composites h2) p = map_of (composites h) p" if "p \<noteq> k" for p
        using E that by (auto simp: delete_conv')
      show ?thesis
      proof (cases "\<exists>a. r = Inr (Awaiting a)")
        case True
        then obtain a where a: "r = Inr (Awaiting a)" by blast
        have "keeps_below n w w1"
          using keeps_below_trans [OF frame_keeps_below [OF f0]] L w2 by blast
        moreover have "currentCompositeId h1 = currentCompositeId h" "container h1 = container h"
          using L c2 E by simp_all
        moreover have "\<forall>p. p \<noteq> k \<longrightarrow> map_of (composites h1) p = map_of (composites h) p"
          using L m2 by simp
        ultimately show ?thesis using a by blast
      next
        case False
        then have "(\<exists>x. r = Inl x) \<or> r = Inr (Returned None)"
          using la
          by (auto simp: lookup_and_instantiate_def split: option.splits prod.splits)
        then show ?thesis by blast
      qed
    next
      case (Some y)
      then obtain e where e: "map_of (composites h) k = Some e"
        "\<not> store_isDisposed w0 (disposables e)"
        using re by (auto simp: reuse_existing_def split: option.splits if_splits)
      obtain r3 h3 w3 where sh: "showComposite ev k h w0 = (r3, h3, w3)"
        using prod_cases3 by blast
      have "reuse_existing ev k h w0 =
          (case r3 of Inl x \<Rightarrow> (Some (Inl x), h3, w3)
           | Inr _ \<Rightarrow> (Some (Inr (composite e)), h3, w3))"
        using reuse_existing_live [OF e, of ev] sh by (simp split: sum.splits)
      then have "(\<exists>x. r = Inl x) \<or>
         (r = Inr (Returned (Some (composite e))) \<and> r3 = Inr () \<and> h1 = h3 \<and> w1 = w3)"
        using ho hd Inr re by (auto simp: hide_and_open_def split: sum.splits)
      then show ?thesis using e(1) sh f0 by blast
    qed
  qed
qed

lemma create_and_show_success:
  assumes cs: "create_and_show ev k c h w = (Inr (Some c'), h', w')"
  defines "e \<equiv> \<lparr>composite = c, entry_container = Suc (fresh w), disposables = fresh w\<rparr>"
  shows "c' = c \<and>
         (\<exists>ws. keeps_below (fresh w) w ws \<and>
            showComposite ev k (h\<lparr>composites := AList.update k e (composites h)\<rparr>) ws
              = (Inr (), h', w'))"
  using create_and_show_effect [OF cs, folded e_def] by (auto split: if_splits)

lemma openComposite_success:
  assumes op: "openComposite ev k h w = (Inr (Some c), h', w')"
  obtains hs ws e h2 where
    "keeps_below (fresh w) w ws"
    "currentCompositeId hs = currentCompositeId h"
    "\<forall>p. p \<noteq> k \<longrightarrow> map_of (composites hs) p = map_of (composites h) p"
    "map_of (composites hs) k = Some e" "composite e = c"
    "map_of (composites h) k = Some e \<or> fresh w \<le> entry_container e"
    "showComposite ev k hs ws = (Inr (), h2, w')"
    "composites h' = composites h2" "currentCompositeId h' = currentCompositeId h2"
proof -
  obtain r1 h1 w1 where bg: "openComposite_begin ev k h w = (r1, h1, w1)"
    using prod_cases3 by blast
  have nc: "k \<notin> creatingComposites h"
    using op by (auto simp: openComposite_def openComposite_begin_def)
  \<comment> \<open>the call of \<open>hide_and_open\<close>, if the first test does not return\<close>
  have "(\<exists>e ws. map_of (composites h) k = Some e \<and> r1 = Inr (Returned (Some (composite e))) \<and>
           frame w ws \<and> showComposite ev k h ws = (Inr (), h1, w1)) \<or>
        (\<exists>x. r1 = Inl x) \<or> r1 = Inr (Returned None) \<or>
        (\<exists>a. r1 = Inr (Awaiting a) \<and> keeps_below (fresh w) w w1 \<and>
            currentCompositeId h1 = currentCompositeId h \<and>
            (\<forall>p. p \<noteq> k \<longrightarrow> map_of (composites h1) p = map_of (composites h) p))"
  proof (cases "currentCompositeId h = Some k")
    case False
    then have "hide_and_open ev k h w = (r1, h1, w1)"
      using bg nc by (simp add: openComposite_begin_def)
    from hide_and_open_success [OF this, of "fresh w"] show ?thesis by blast
  next
    case True
    obtain r0 h0 w0 where re: "reuse_existing ev k h w = (r0, h0, w0)"
      using prod_cases3 by blast
    note E = reuse_existing_effect [OF re]
    show ?thesis
    proof (cases r0)
      case (Some y)
      then obtain e where e: "map_of (composites h) k = Some e"
        "\<not> store_isDisposed w (disposables e)"
        using re by (auto simp: reuse_existing_def split: option.splits if_splits)
      obtain r3 h3 w3 where sh: "showComposite ev k h w = (r3, h3, w3)"
        using prod_cases3 by blast
      have "reuse_existing ev k h w =
          (case r3 of Inl x \<Rightarrow> (Some (Inl x), h3, w3)
           | Inr _ \<Rightarrow> (Some (Inr (composite e)), h3, w3))"
        using reuse_existing_live [OF e, of ev] sh by (simp split: sum.splits)
      then have "(\<exists>x. r1 = Inl x) \<or>
         (r1 = Inr (Returned (Some (composite e))) \<and> r3 = Inr () \<and> h1 = h3 \<and> w1 = w3)"
        using bg nc True re by (auto simp: openComposite_begin_def split: sum.splits)
      then show ?thesis using e(1) sh frame_refl by blast
    next
      case None
      then have ho: "hide_and_open ev k h0 w = (r1, h1, w1)"
        using bg nc True re E by (auto simp: openComposite_begin_def)
      have m0: "map_of (composites h0) k = None" "currentCompositeId h0 = currentCompositeId h"
        using E None by simp_all
      have mp: "map_of (composites h0) p = map_of (composites h) p" if "p \<noteq> k" for p
        using E that by (auto simp: delete_conv')
      from hide_and_open_success [OF ho, of "fresh w"] m0 mp show ?thesis by auto
    qed
  qed
  then consider
    (reused) e ws where "map_of (composites h) k = Some e" "r1 = Inr (Returned (Some (composite e)))"
      "frame w ws" "showComposite ev k h ws = (Inr (), h1, w1)"
    | (other) "(\<exists>x. r1 = Inl x) \<or> r1 = Inr (Returned None)"
    | (created) a where "r1 = Inr (Awaiting a)" "keeps_below (fresh w) w w1"
      "currentCompositeId h1 = currentCompositeId h"
      "\<forall>p. p \<noteq> k \<longrightarrow> map_of (composites h1) p = map_of (composites h) p"
    by blast
  then show thesis
  proof cases
    case reused
    then have "h' = h1" "w' = w1" "composite e = c"
      using op bg by (auto simp: openComposite_def)
    then show ?thesis
      using that [of ws h e h1] reused frame_keeps_below by auto
  next
    case other
    then show ?thesis using op bg by (auto simp: openComposite_def)
  next
    case created
    obtain res h3 w3 where rs: "openComposite_resume ev k a h1 w1 = (res, h3, w3)"
      using prod_cases3 by blast
    then have eq: "res = Inr (Some c)" "h' = h3" "w' = w3"
      using op bg created(1) by (auto simp: openComposite_def)
    note U = openComposite_resume_unfold [OF rs]
    obtain c0 where a: "a = Inr (Some c0)"
      using U eq(1) by (cases a) (auto split: option.splits)
    obtain h4 where cs: "create_and_show ev k c0 h1 w1 = (Inr (Some c), h4, w3)"
      and h3: "h3 = h4\<lparr>creatingComposites := creatingComposites h4 - {k}\<rparr>"
      using U a eq(1) by auto
    define e where "e = \<lparr>composite = c0, entry_container = Suc (fresh w1), disposables = fresh w1\<rparr>"
    from create_and_show_success [OF cs, folded e_def] obtain ws where
      c: "c = c0" and ks: "keeps_below (fresh w1) w1 ws"
      and sh: "showComposite ev k (h1\<lparr>composites := AList.update k e (composites h1)\<rparr>) ws
              = (Inr (), h4, w3)"
      by blast
    have fr: "fresh w \<le> fresh w1" using created(2) by (simp add: keeps_below_def)
    have k1: "keeps_below (fresh w) w ws"
      using keeps_below_trans [OF created(2) keeps_below_mono [OF ks fr]] .
    show ?thesis
      using that [of ws "h1\<lparr>composites := AList.update k e (composites h1)\<rparr>" e h4]
        k1 created(3,4) sh c fr eq h3
      by (auto simp: update_conv' e_def)
  qed
qed

subsection \<open>What a call of \<^verbatim>\<open>openComposite\<close> leaves alone\<close>

lemma openComposite_keeps:
  assumes "openComposite ev k h w = (r, h', w')"
  shows "keeps_below (fresh w) w w'"
proof -
  obtain r1 h1 w1 where bg: "openComposite_begin ev k h w = (r1, h1, w1)"
    using prod_cases3 by blast
  have k1: "keeps_below (fresh w) w w1"
    using openComposite_begin_effect [OF bg, of "fresh w"] by simp
  show ?thesis
  proof (cases "\<exists>a. r1 = Inr (Awaiting a)")
    case False
    then have "w' = w1"
      using assms bg by (auto simp: openComposite_def split: sum.splits progress.splits)
    then show ?thesis using k1 by simp
  next
    case True
    then obtain a where a: "r1 = Inr (Awaiting a)" by blast
    obtain res h2 w2 where rs: "openComposite_resume ev k a h1 w1 = (res, h2, w2)"
      using prod_cases3 by blast
    have w': "w' = w2" using assms bg a rs by (simp add: openComposite_def)
    note U = openComposite_resume_unfold [OF rs]
    have "keeps_below (fresh w) w1 w2"
    proof (cases "\<exists>c. a = Inr (Some c)")
      case True
      then obtain c where c: "a = Inr (Some c)" by blast
      then obtain h3 where "create_and_show ev k c h1 w1 = (res, h3, w2)"
        using U by auto
      from create_and_show_effect [OF this] have "keeps_below (fresh w1) w1 w2" by simp
      moreover have "fresh w \<le> fresh w1" using k1 by (simp add: keeps_below_def)
      ultimately show ?thesis by (rule keeps_below_mono)
    next
      case False
      then have "w2 = w1" using U by (auto split: sum.splits option.splits)
      then show ?thesis by simp
    qed
    then show ?thesis using k1 w' keeps_below_trans by blast
  qed
qed

lemma new_EmbeddedCompositeHost_frame:
  "new_EmbeddedCompositeHost c loc w = (h, w') \<Longrightarrow> frame w w'"
  by (auto simp: new_EmbeddedCompositeHost_def intro!: frame_update_style)

subsection \<open>The first \<^verbatim>\<open>openComposite\<close> of a new host\<close>

lemma layout_world:
  "layout d h w = (r, w') \<Longrightarrow>
     elements w' = elements w \<and> stores w' = stores w \<and> fresh w' = fresh w \<and>
     (\<exists>cs. calls w' = calls w @ cs)"
  by (auto simp: layout_def invoke_def split: option.splits if_splits)

lemma new_host_open:
  assumes reg: "registry_as ev (registryId_of loc) = Some registry" "registry k = Some d"
      "instantiate d = InstantiateOk fs"
    and nf: "\<forall>r. Create r \<notin> set fs" "UpdateStyles \<notin> set fs" "SetVisible True \<notin> set fs"
      "\<forall>dm. Layout dm \<notin> set fs"
    and nh: "new_EmbeddedCompositeHost el loc w = (h0, w0)"
    and op: "openComposite ev k h0 w0 = (r, h', w')"
  defines "c \<equiv> \<lparr>oid = fresh w, faults = fs\<rparr>"
  defines "e \<equiv> \<lparr>composite = c, entry_container = Suc (Suc (fresh w)),
                  disposables = Suc (fresh w)\<rparr>"
  shows "r = Inr (Some c) \<and>
         h' = \<lparr>composites = [(k, e)], currentCompositeId = Some k, creatingComposites = {},
               container = el, location = loc\<rparr> \<and>
         keeps_below (fresh w) w w' \<and> fresh w' = Suc (Suc (Suc (fresh w))) \<and>
         parent_of w' (entry_container e) = Some el \<and>
         display_of w' (entry_container e) = Some ''block'' \<and>
         (oid c, Create (entry_container e)) \<in> set (new_calls w w') \<and>
         (oid c, SetVisible True) \<in> set (new_calls w w') \<and>
         stores w' (disposables e) = Some \<lparr>isDisposed = False, toDispose = [c]\<rparr>"
proof -
  have h0: "h0 = \<lparr>composites = [], currentCompositeId = None, creatingComposites = {},
                   container = el, location = loc\<rparr>"
    using nh by (simp add: new_EmbeddedCompositeHost_def)
  note F0 = frame_facts [OF new_EmbeddedCompositeHost_frame [OF nh]]
  have c0: "calls w0 = calls w" using nh by (auto simp: new_EmbeddedCompositeHost_def)
  define w1 where "w1 = w0\<lparr>instantiations := instantiations w0 @ [descriptor_id d],
                            fresh := Suc (fresh w0)\<rparr>"
  define h1 where "h1 = h0\<lparr>creatingComposites := {k}\<rparr>"
  have bg: "openComposite_begin ev k h0 w0 = (Inr (Awaiting (Inr (Some c))), h1, w1)"
    using reg
    by (simp add: openComposite_begin_def hide_and_open_def reuse_existing_def
        lookup_and_instantiate_def createComposite_def Let_def h0 h1_def w1_def c_def F0(2))
  have rs: "openComposite_resume ev k (Inr (Some c)) h1 w1 = (r, h', w')"
    using op bg by (simp add: openComposite_def)
  from openComposite_resume_unfold [OF rs] obtain h2 where
    cs: "create_and_show ev k c h1 w1 = (r, h2, w')"
    and h': "h' = h2\<lparr>creatingComposites := creatingComposites h2 - {k}\<rparr>"
    by auto
  have fr1: "fresh w1 = Suc (fresh w)" by (simp add: w1_def F0(2))
  define e1 where "e1 = \<lparr>composite = c, entry_container = Suc (fresh w1), disposables = fresh w1\<rparr>"
  have e1: "e1 = e" by (simp add: e1_def e_def fr1)
  have nt: "\<not> show_throws ev k e1 h1"
    using nf by (simp add: show_throws_def h1_def h0 e1_def c_def)
  have nc: "\<not> (Create (Suc (fresh w1)) \<in> set (faults c) \<or> UpdateStyles \<in> set (faults c))"
    using nf by (simp add: c_def)
  note C = create_and_show_effect [OF cs, folded e1_def]
  have res: "r = Inr (Some c)"
    and h2: "h2 = h1\<lparr>composites := AList.update k e1 (composites h1), currentCompositeId := Some k\<rparr>"
    and st: "stores w' (fresh w1) = Some \<lparr>isDisposed = False, toDispose = [c]\<rparr>"
    and pa: "parent_of w' (Suc (fresh w1)) = Some (container h1)"
    and kb: "keeps_below (fresh w1) w1 w'" and fr: "fresh w' = Suc (Suc (fresh w1))"
    and cr: "(oid c, Create (Suc (fresh w1))) \<in> set (new_calls w1 w')"
    and el': "elements w' (Suc (fresh w1)) \<noteq> None"
    using C nt nc by simp_all
  from C nt nc obtain ws where ws: "keeps_below (fresh w1) w1 ws"
    and sh: "showComposite ev k (h1\<lparr>composites := AList.update k e1 (composites h1)\<rparr>) ws
               = (Inr (), h2, w')"
    by auto
  have mk: "map_of (composites (h1\<lparr>composites := AList.update k e1 (composites h1)\<rparr>)) k = Some e1"
    by (simp add: update_conv')
  note S = showComposite_shown [OF sh mk]
  have "elements ws (entry_container e1) \<noteq> None"
    using frame_facts(4) [OF showComposite_frame [OF sh], of "Suc (fresh w1)"] el'
    by (simp add: e1_def)
  then have dp: "display_of w' (entry_container e1) = Some ''block''" using S by simp
  have k01: "keeps_below (fresh w) w w1"
    using F0 c0 by (auto simp: keeps_below_def w1_def parent_of_def childNodes_of_def)
  have kw: "keeps_below (fresh w) w w'"
    using keeps_below_trans [OF k01 keeps_below_mono [OF kb]] fr1 by simp
  have c1: "calls w1 = calls w" by (simp add: w1_def c0)
  have c2: "\<exists>cs. calls ws = calls w1 @ cs" using ws by (simp add: keeps_below_def)
  have c3: "\<exists>cs. calls w' = calls ws @ cs"
    using showComposite_frame [OF sh] by (simp add: frame_def)
  have sv: "(oid c, SetVisible True) \<in> set (new_calls w1 w')"
    using new_calls_right [OF c2 c3] S by (simp add: e1_def)
  have nc': "new_calls w w' = new_calls w1 w'" by (simp add: new_calls_def c1)
  have "h' = \<lparr>composites = [(k, e)], currentCompositeId = Some k, creatingComposites = {},
               container = el, location = loc\<rparr>"
    by (simp add: h' h2 h1_def h0 e1)
  then show ?thesis
    using res kw fr fr1 pa dp cr sv st nc' e1
    by (simp add: h1_def h0 e1_def e_def)
qed

section \<open>Lemmas about the widget\<close>

lemma set_innerHTML_effect:
  "elements w p \<noteq> None \<Longrightarrow> childNodes_of (set_innerHTML sv p html w) p = Some (parseHTML sv html)"
  "parent_of (set_innerHTML sv p html w) p = parent_of w p"
  "x \<noteq> p \<Longrightarrow> parent_of (set_innerHTML sv p html w) x \<noteq> Some p"
  by (auto simp: set_innerHTML_def childNodes_of_def parent_of_def split: option.splits)

lemma set_innerHTML_fields [simp]:
  "fresh (set_innerHTML sv p html w) = fresh w"
  "stores (set_innerHTML sv p html w) = stores w"
  "calls (set_innerHTML sv p html w) = calls w"
  "instantiations (set_innerHTML sv p html w) = instantiations w"
  by (simp_all add: set_innerHTML_def)

lemma prepare_content_effect:
  assumes "prepare_content sv viewletId wd w = (Inr wrapper, wd1, w1)"
  shows "wrapper < fresh w1 \<and> elements w1 wrapper \<noteq> None \<and>
         parent_of w1 wrapper = Some (contentContainer wd) \<and>
         childNodes_of w1 wrapper = Some [] \<and>
         currentViewletId wd1 = Some viewletId \<and> fired wd1 = fired wd \<and>
         buttons wd1 = buttons wd \<and>
         storage wd1 = (storage wd)(LAST_ACTIVE_VIEWLET_KEY \<mapsto> viewletId) \<and>
         contentContainer wd1 = contentContainer wd \<and>
         activityBarContainer wd1 = activityBarContainer wd"
  using assms
  by (auto simp: prepare_content_def Let_def createElement_def appendChild_def
      update_element_def parent_of_def childNodes_of_def
      split: option.splits sum.splits prod.splits)

lemma prepare_content_calls:
  assumes "prepare_content sv viewletId wd w = (r, wd1, w1)"
  shows "\<exists>cs. calls w1 = calls w @ cs"
proof (cases "embeddedHost wd")
  case None
  then show ?thesis using assms
    by (auto simp: prepare_content_def Let_def createElement_def appendChild_def
        update_element_def)
next
  case (Some hst)
  obtain r2 h2 w2 where d: "dispose hst (set_innerHTML sv (contentContainer wd) [] w) = (r2, h2, w2)"
    using prod_cases3 by blast
  have "\<exists>cs. calls w2 = calls w @ cs"
    using dispose_effect [OF d] by (auto simp: evolves_def)
  then show ?thesis using assms Some d
    by (auto simp: prepare_content_def Let_def createElement_def appendChild_def
        update_element_def split: sum.splits)
qed

lemma render_viewlet_fields:
  assumes "render_viewlet sv viewletId wrapper wd w = (wd', w')"
  shows "currentViewletId wd' = currentViewletId wd \<and> fired wd' = fired wd \<and>
         buttons wd' = buttons wd \<and> storage wd' = storage wd \<and>
         contentContainer wd' = contentContainer wd \<and>
         activityBarContainer wd' = activityBarContainer wd"
  using assms
  by (auto simp: render_viewlet_def split: if_splits prod.splits sum.splits option.splits)

lemma render_viewlet_failure:
  assumes rv: "render_viewlet sv viewletId wrapper wd w = (wd', w')"
    and fail: "createInstance_throws sv \<or>
       (case fst (openComposite (host_env sv) viewletId
                    (fst (new_EmbeddedCompositeHost wrapper Sidebar w))
                    (snd (new_EmbeddedCompositeHost wrapper Sidebar w))) of
          Inr (Some c) \<Rightarrow> False | _ \<Rightarrow> True)"
    and wr: "wrapper < fresh w" "elements w wrapper \<noteq> None"
  shows "\<exists>w2. w' = showPlaceholder sv wrapper viewletId w2 \<and>
           elements w2 wrapper \<noteq> None \<and> parent_of w2 wrapper = parent_of w wrapper \<and>
           childNodes_of w2 wrapper = childNodes_of w wrapper"
proof (cases "createInstance_throws sv")
  case True
  then show ?thesis using rv wr by (auto simp: render_viewlet_def)
next
  case False
  obtain hst w1 where nh: "new_EmbeddedCompositeHost wrapper Sidebar w = (hst, w1)"
    by fastforce
  obtain r hst2 w2 where op: "openComposite (host_env sv) viewletId hst w1 = (r, hst2, w2)"
    using prod_cases3 by blast
  have r: "\<forall>c. r \<noteq> Inr (Some c)"
    using fail False nh op by (auto split: sum.splits option.splits)
  have w': "w' = showPlaceholder sv wrapper viewletId w2"
    using rv False nh op r
    by (cases r; auto simp: render_viewlet_def split: option.splits)
  note f1 = frame_facts [OF new_EmbeddedCompositeHost_frame [OF nh]]
  have k: "keeps_below (fresh w1) w1 w2" using op by (rule openComposite_keeps)
  have "wrapper < fresh w1" using wr(1) f1(2) by simp
  then have "parent_of w2 wrapper = parent_of w1 wrapper"
    "childNodes_of w2 wrapper = childNodes_of w1 wrapper"
    "(elements w2 wrapper = None) = (elements w1 wrapper = None)"
    using k by (simp_all add: keeps_below_def)
  then show ?thesis
    using w' f1(4) [of wrapper] f1(5) [of wrapper] f1(7) [of wrapper] wr(2) by auto
qed

lemma render_viewlet_success:
  assumes rv: "render_viewlet sv k wrapper wd w = (wd', w')"
    and ci: "\<not> createInstance_throws sv"
    and reg: "registry_as (host_env sv) Viewlets = Some registry" "registry k = Some d"
      "instantiate d = InstantiateOk fs"
    and nf: "\<forall>r. Create r \<notin> set fs" "UpdateStyles \<notin> set fs" "SetVisible True \<notin> set fs"
      "\<forall>dm. Layout dm \<notin> set fs"
  defines "c \<equiv> \<lparr>oid = fresh w, faults = fs\<rparr>"
  defines "e \<equiv> \<lparr>composite = c, entry_container = Suc (Suc (fresh w)),
                  disposables = Suc (fresh w)\<rparr>"
  shows "embeddedHost wd' =
           Some \<lparr>composites = [(k, e)], currentCompositeId = Some k, creatingComposites = {},
                 container = wrapper, location = Sidebar\<rparr> \<and>
         keeps_below (fresh w) w w' \<and>
         parent_of w' (entry_container e) = Some wrapper \<and>
         display_of w' (entry_container e) = Some ''block'' \<and>
         (oid c, Create (entry_container e)) \<in> set (new_calls w w') \<and>
         (oid c, SetVisible True) \<in> set (new_calls w w') \<and>
         stores w' (disposables e) = Some \<lparr>isDisposed = False, toDispose = [c]\<rparr>"
proof -
  obtain hst w1 where nh: "new_EmbeddedCompositeHost wrapper Sidebar w = (hst, w1)"
    by fastforce
  obtain r hst2 w2 where op: "openComposite (host_env sv) k hst w1 = (r, hst2, w2)"
    using prod_cases3 by blast
  have reg': "registry_as (host_env sv) (registryId_of Sidebar) = Some registry"
    using reg(1) by simp
  note N = new_host_open [OF reg' reg(2,3) nf nh op, folded c_def, folded e_def]
  obtain r3 w3 where ly: "layout (getBoundingClientRect (host_env sv) wrapper) hst2 w2 = (r3, w3)"
    by fastforce
  have r3: "r3 = Inr ()"
    using ly N nf(4) by (auto simp: layout_def invoke_def e_def c_def split: if_splits)
  note L = layout_world [OF ly]
  have res: "wd' = wd\<lparr>embeddedHost := Some hst2\<rparr>" "w' = w3"
    using rv ci nh op N ly r3 by (simp_all add: render_viewlet_def)
  have c23: "\<exists>cs. calls w3 = calls w2 @ cs" using L by simp
  have c12: "\<exists>cs. calls w2 = calls w @ cs" using N by (simp add: keeps_below_def)
  have k3: "keeps_below (fresh w) w w3"
    using N L by (auto simp: keeps_below_def parent_of_def childNodes_of_def)
  have "parent_of w3 = parent_of w2" "display_of w3 = display_of w2"
    using L by (simp_all add: parent_of_def display_of_def fun_eq_iff)
  then show ?thesis
    using res N k3 L new_calls_left [OF c12 c23] by simp
qed

lemma showPlaceholder_effect:
  assumes "getViewContainerById sv viewletId = Some vc" and "elements w wrapper \<noteq> None"
  shows "childNodes_of (showPlaceholder sv wrapper viewletId w) wrapper
           = Some (parseHTML sv (placeholder_html (title vc)))"
    "parent_of (showPlaceholder sv wrapper viewletId w) wrapper = parent_of w wrapper"
    "x \<noteq> wrapper \<Longrightarrow> parent_of (showPlaceholder sv wrapper viewletId w) x \<noteq> Some wrapper"
  using assms by (simp_all add: showPlaceholder_def set_innerHTML_effect)

lemma showPlaceholder_unknown:
  "getViewContainerById sv viewletId = None \<Longrightarrow> showPlaceholder sv wrapper viewletId w = w"
  by (simp add: showPlaceholder_def)

lemma updateActiveButton_fields [simp]:
  "currentViewletId (updateActiveButton sv k wd) = currentViewletId wd"
  "fired (updateActiveButton sv k wd) = fired wd"
  "storage (updateActiveButton sv k wd) = storage wd"
  "embeddedHost (updateActiveButton sv k wd) = embeddedHost wd"
  "contentContainer (updateActiveButton sv k wd) = contentContainer wd"
  by (simp_all add: updateActiveButton_def Let_def)

lemma showViewlet_unfold:
  assumes "currentViewletId wd \<noteq> Some viewletId"
    and "prepare_content sv viewletId wd w = (Inr wrapper, wd1, w1)"
    and "render_viewlet sv viewletId wrapper wd1 w1 = (wd2, w2)"
  shows "showViewlet sv viewletId wd w =
           (Inr (), (updateActiveButton sv viewletId wd2)\<lparr>fired := Suc (fired wd2)\<rparr>, w2)"
  using assms by (simp add: showViewlet_def)

lemma find_container_Some:
  "find_container cs v = Some c \<Longrightarrow> c \<in> set cs \<and> JString (vc_id c) = v"
  by (auto simp: find_container_def find_Some_iff)

lemma find_container_None:
  "find_container cs v = None \<longleftrightarrow> \<not> (\<exists>c\<in>set cs. JString (vc_id c) = v)"
  by (auto simp: find_container_def find_None_iff)

lemma map_filter_find_container:
  "map (\<lambda>c. JString (vc_id c)) (List.map_filter (find_container cs) vs) =
     filter (\<lambda>v. \<exists>c\<in>set cs. JString (vc_id c) = v) vs"
proof (induction vs)
  case Nil
  then show ?case by (simp add: List.map_filter_simps)
next
  case (Cons v vs)
  show ?case
  proof (cases "find_container cs v")
    case None
    then show ?thesis using Cons find_container_None [of cs v]
      by (simp add: List.map_filter_simps)
  next
    case (Some c)
    then show ?thesis using Cons find_container_Some [OF Some]
      by (auto simp: List.map_filter_simps)
  qed
qed

lemma map_filter_find_container_set:
  "set (List.map_filter (find_container cs) vs) \<subseteq> set cs"
  by (auto simp: List.map_filter_def dest: find_container_Some)

lemma add_buttons_effect:
  assumes "add_buttons bar cs w = (bs, w')"
  shows "keeps_below (fresh w) w w' \<and>
         map target bs = map vc_id cs \<and> map aria_label bs = map title cs \<and>
         (\<forall>b\<in>set bs. fresh w \<le> button_element b \<and> button_element b < fresh w' \<and>
            parent_of w' (button_element b) = Some bar) \<and>
         distinct (map button_element bs)"
  using assms
proof (induction cs arbitrary: w bs w')
  case Nil
  then show ?case by simp
next
  case (Cons c cs)
  let ?b = "fresh w"
  define wa where "wa = appendChild bar ?b
     (appendChild ?b (Suc ?b) (appendChild (Suc ?b) (Suc (Suc ?b))
        (snd (createElement
           (update_element (Suc ?b) (\<lambda>e. e\<lparr>classList := [''action-label'']\<rparr>)
              (snd (createElement
                 (update_element ?b (\<lambda>e. e\<lparr>classList := [''action-item'']\<rparr>)
                    (snd (createElement w))))))))))"
  obtain bs1 where step: "add_buttons bar cs wa = (bs1, w')"
    and bs: "bs = \<lparr>button_element = ?b, aria_label = title c, target = vc_id c,
                    checked = False\<rparr> # bs1"
    using Cons.prems
    by (auto simp: wa_def createElement_def update_element_def appendChild_def
        split: prod.splits)
  have fa: "fresh wa = Suc (Suc (Suc ?b))"
    by (simp add: wa_def createElement_def update_element_def appendChild_def)
  have pa: "parent_of wa ?b = Some bar"
    by (simp add: wa_def createElement_def update_element_def appendChild_def parent_of_def)
  have ka: "keeps_below ?b w wa"
    by (auto simp: wa_def createElement_def update_element_def appendChild_def
        keeps_below_def parent_of_def childNodes_of_def)
  note IH = Cons.IH [OF step]
  have kb: "keeps_below (fresh wa) wa w'" using IH by simp
  have "keeps_below ?b wa w'" using kb by (rule keeps_below_mono) (simp add: fa)
  then have k: "keeps_below ?b w w'" using ka keeps_below_trans by blast
  have pb: "parent_of w' ?b = Some bar"
    using kb pa by (simp add: keeps_below_def fa)
  have fw: "fresh wa \<le> fresh w'" using kb by (simp add: keeps_below_def)
  have "\<forall>b\<in>set bs1. button_element b \<noteq> ?b"
    using IH fa by auto
  then show ?case
    using IH k pb fw fa bs by auto
qed

section \<open>The concrete host, evaluated\<close>

text \<open>
  The definitions unfold to closed terms, so the simplifier evaluates the operations on the
  concrete host.
\<close>

lemma if_holds: "c \<Longrightarrow> (if c then a else b) \<Longrightarrow> a"
  by simp

lemma if_fails: "\<not> c \<Longrightarrow> (if c then a else b) \<Longrightarrow> b"
  by simp

lemmas ex_defs = ex_host_def ex_world0_def ex_world_def ex_element_def ex_env_def ex_registry_def
  new_EmbeddedCompositeHost_def update_element_def ex_entry_def ex_entry2_def

lemmas op_defs = openComposite_def openComposite_begin_def hide_and_open_def reuse_existing_def
  lookup_and_instantiate_def createComposite_def openComposite_resume_def create_and_show_def
  create_ui_def cleanup_def showComposite_def hideComposite_def invoke_def
  new_DisposableStore_def store_add_def store_dispose_def createElement_def appendChild_def
  remove_element_def parent_of_def store_isDisposed_def display_of_def childNodes_of_def

lemma ex_reachable_start: "reachable ex_env 0 (ex_host, ex_world0, [])"
  by (rule reachable.constructed [of ex_world 0 Sidebar])
    (simp_all add: ex_defs)

lemma ex_reachable_opened: "reachable ex_env 0 (ex_opened_host k, ex_opened_world k, [])"
  by (rule reachable_openComposite [OF ex_reachable_start,
        of k "fst (openComposite ex_env k ex_host ex_world0)"])
    (simp add: ex_opened_host_def ex_opened_world_def)

lemma ex_reachable_second:
  "reachable ex_env 0 (ex_second_host k1 k2, ex_second_world k1 k2, [])"
  by (rule reachable_openComposite [OF ex_reachable_opened,
        of k2 k1 "fst (openComposite ex_env k2 (ex_opened_host k1) (ex_opened_world k1))"])
    (simp add: ex_second_host_def ex_second_world_def)

lemma ex_reachable_pending:
  assumes "fst (openComposite_begin ex_env k ex_host ex_world0) = Inr (Awaiting a)"
  shows "reachable ex_env 0 (ex_pending_host k, ex_pending_world k, [(k, a)])"
proof -
  have "openComposite_begin ex_env k ex_host ex_world0 =
      (Inr (Awaiting a), ex_pending_host k, ex_pending_world k)"
    using assms by (simp add: ex_pending_host_def ex_pending_world_def prod_eq_iff)
  from reachable.opened [OF ex_reachable_start this] show ?thesis by simp
qed

lemma ex_explorer_pending:
  "fst (openComposite_begin ex_env ''workbench.view.explorer'' ex_host ex_world0) =
     Inr (Awaiting (Inr (Some \<lparr>oid = 1, faults = []\<rparr>)))"
  "ex_pending_host ''workbench.view.explorer'' =
     ex_host\<lparr>creatingComposites := {''workbench.view.explorer''}\<rparr>"
  "fresh (ex_pending_world ''workbench.view.explorer'') = 2"
  by (simp_all add: ex_pending_host_def ex_pending_world_def ex_defs op_defs)

lemma ex_explorer_opened:
  "fst (openComposite ex_env ''workbench.view.explorer'' ex_host ex_world0) =
     Inr (Some \<lparr>oid = 1, faults = []\<rparr>)"
  "ex_opened_host ''workbench.view.explorer'' =
     \<lparr>composites = [(''workbench.view.explorer'', ex_entry [])],
      currentCompositeId = Some ''workbench.view.explorer'', creatingComposites = {},
      container = 0, location = Sidebar\<rparr>"
  "calls (ex_opened_world ''workbench.view.explorer'') =
     [(1, Create 3), (1, UpdateStyles), (1, SetVisible True), (1, Layout (Dimension 300 600))]"
  "fresh (ex_opened_world ''workbench.view.explorer'') = 4"
  "instantiations (ex_opened_world ''workbench.view.explorer'') = [''workbench.view.explorer'']"
  "stores (ex_opened_world ''workbench.view.explorer'') 2 =
     Some \<lparr>isDisposed = False, toDispose = [\<lparr>oid = 1, faults = []\<rparr>]\<rparr>"
  "elements (ex_opened_world ''workbench.view.explorer'') 3 =
     Some \<lparr>classList = [''composite'', ''embedded-composite''],
           elem_id = ''workbench.view.explorer'',
           style_display = ''block'', style_height = ''100%'', parentElement = Some 0,
           childNodes = []\<rparr>"
  by (simp_all add: ex_opened_host_def ex_opened_world_def ex_defs op_defs)


lemma ex_hide_second:
  "ex_second_host ''workbench.view.explorer'' ''broken.hide'' =
     \<lparr>composites = [(''workbench.view.explorer'', ex_entry []),
                    (''broken.hide'', ex_entry2 [SetVisible False])],
      currentCompositeId = Some ''broken.hide'', creatingComposites = {},
      container = 0, location = Sidebar\<rparr>"
  "fresh (ex_second_world ''workbench.view.explorer'' ''broken.hide'') = 7"
  "instantiations (ex_second_world ''workbench.view.explorer'' ''broken.hide'')
     = [''workbench.view.explorer'', ''broken.hide'']"
  "stores (ex_second_world ''workbench.view.explorer'' ''broken.hide'') 2 =
     Some \<lparr>isDisposed = False, toDispose = [\<lparr>oid = 1, faults = []\<rparr>]\<rparr>"
  "stores (ex_second_world ''workbench.view.explorer'' ''broken.hide'') 5 =
     Some \<lparr>isDisposed = False, toDispose = [\<lparr>oid = 4, faults = [SetVisible False]\<rparr>]\<rparr>"
  "elements (ex_second_world ''workbench.view.explorer'' ''broken.hide'') 3 =
     Some \<lparr>classList = [''composite'', ''embedded-composite''],
           elem_id = ''workbench.view.explorer'',
           style_display = ''none'', style_height = ''100%'', parentElement = Some 0,
           childNodes = []\<rparr>"
  "elements (ex_second_world ''workbench.view.explorer'' ''broken.hide'') 6 =
     Some \<lparr>classList = [''composite'', ''embedded-composite''],
           elem_id = ''broken.hide'',
           style_display = ''block'', style_height = ''100%'', parentElement = Some 0,
           childNodes = []\<rparr>"
  by (simp_all add: ex_second_host_def ex_second_world_def ex_explorer_opened ex_defs op_defs)

lemma ex_layout_pending:
  "fst (openComposite_begin ex_env ''broken.layout'' ex_host ex_world0) =
     Inr (Awaiting (Inr (Some \<lparr>oid = 1, faults = [Layout (Dimension 300 600)]\<rparr>)))"
  by (simp add: ex_defs op_defs)

lemma ex_styles_pending:
  "fst (openComposite_begin ex_env ''broken.styles'' ex_host ex_world0) =
     Inr (Awaiting (Inr (Some \<lparr>oid = 1, faults = [UpdateStyles]\<rparr>)))"
  by (simp add: ex_defs op_defs)

section \<open>The claims about EmbeddedCompositeHost\<close>

lemma open_existing_begin:
  assumes re: "reachable ev host_el (h, w, ps)"
    and m: "map_of (composites h) compositeId = Some existing"
    and live: "\<not> store_isDisposed w (disposables existing)"
    and op: "openComposite_begin ev compositeId h w = (r, h', w')"
  shows "instantiations w' = instantiations w \<and> fresh w' = fresh w \<and>
         composites h' = composites h \<and>
         (if show_throws ev compositeId existing h
          then \<exists>i c. r = Inl (CompositeError i c) \<and> (i, c) \<in> set (new_calls w w')
          else r = Inr (Returned (Some (composite existing))) \<and>
               currentCompositeId h' = Some compositeId \<and>
               display_of w' (entry_container existing) = Some ''block'' \<and>
               (oid (composite existing), SetVisible True) \<in> set (new_calls w w'))"
proof -
  note D = host_invD [OF reachable_host_inv [OF re]]
  note P = pending_invD [OF D(5)]
  have nc: "compositeId \<notin> creatingComposites h"
    using P(1) P(3) [of compositeId] m by auto
  have ok: "entry_ok w existing" using entries_invD(2) [OF D(4) m] .
  then have el: "elements w (entry_container existing) \<noteq> None" by (simp add: entry_ok_def)
  \<comment> \<open>the world in which the entry is looked up, after the current composite was hidden\<close>
  obtain r1 w1 where hd:
    "(if currentCompositeId h = Some compositeId then (Inr (), w)
      else case currentCompositeId h of None \<Rightarrow> (Inr (), w)
           | Some cur \<Rightarrow> if cur \<noteq> [] then hideComposite cur h w else (Inr (), w)) = (r1, w1)"
    by fastforce
  have f1: "frame w w1"
    using hd by (auto split: option.splits if_splits dest: hideComposite_frame)
  note F1 = frame_facts [OF f1]
  have c1: "\<exists>cs. calls w1 = calls w @ cs" using f1 by (simp add: frame_def)
  show ?thesis
  proof (cases r1)
    case (Inl x)
    then have res: "r = Inl x" "h' = h" "w' = w1"
      using op nc hd m live
      by (auto simp: openComposite_begin_def hide_and_open_def split: option.splits if_splits)
    have "\<exists>i. x = CompositeError i (SetVisible False) \<and> (i, SetVisible False) \<in> set (new_calls w w1)"
      using hd Inl by (auto split: option.splits if_splits dest: hideComposite_thrown)
    moreover have "show_throws ev compositeId existing h"
      using hd Inl
      by (auto simp: show_throws_def hideComposite_def invoke_def
          split: option.splits if_splits sum.splits)
    ultimately show ?thesis using res F1 by auto
  next
    case (Inr u)
    obtain r2 h2 w2 where sh: "showComposite ev compositeId h w1 = (r2, h2, w2)"
      using prod_cases3 by blast
    have live1: "\<not> store_isDisposed w1 (disposables existing)" using live F1(6) by simp
    have re1: "reuse_existing ev compositeId h w1 =
        (case r2 of Inl x \<Rightarrow> (Some (Inl x), h2, w2)
         | Inr _ \<Rightarrow> (Some (Inr (composite existing)), h2, w2))"
      using reuse_existing_live [OF m live1, of ev] sh by (simp split: sum.splits)
    have res: "h' = h2" "w' = w2"
      "r = (case r2 of Inl x \<Rightarrow> Inl x | Inr _ \<Rightarrow> Inr (Returned (Some (composite existing))))"
      using op nc hd Inr re1
      by (auto simp: openComposite_begin_def hide_and_open_def split: option.splits if_splits sum.splits)
    note F2 = frame_facts [OF showComposite_frame [OF sh]]
    have c2: "\<exists>cs. calls w2 = calls w1 @ cs"
      using showComposite_frame [OF sh] by (simp add: frame_def)
    have el1: "elements w1 (entry_container existing) \<noteq> None" using el F1(4) by simp
    note L = show_live_entry [OF sh m el1]
    have th: "(r2 = Inr ()) = (\<not> show_throws ev compositeId existing h)"
      using showComposite_result [OF sh m] .
    have "composites h2 = composites h" using showComposite_fields [OF sh] by simp
    moreover have "instantiations w2 = instantiations w" "fresh w2 = fresh w"
      using F1 F2 by simp_all
    moreover have
      "(r2 = Inr () \<and> currentCompositeId h2 = Some compositeId \<and>
          display_of w2 (entry_container existing) = Some ''block'' \<and>
          (oid (composite existing), SetVisible True) \<in> set (new_calls w w2)) \<or>
       (\<exists>i c. r2 = Inl (CompositeError i c) \<and> (i, c) \<in> set (new_calls w w2))"
      using L new_calls_right [OF c1 c2] by blast
    ultimately show ?thesis using res th by auto
  qed
qed

text \<open>
  Claim C1 (create-on-demand), as amended. In every configuration a host can reach, when
  \<^verbatim>\<open>openComposite\<close> is called for an id whose entry has a store that is not disposed,
  nothing is instantiated (no call of \<^verbatim>\<open>descriptor.instantiate\<close>, no object
  allocated) and the map is left as it is, so a composite is instantiated only when the
  id has no entry with a live store. If none of the composite methods the call makes
  throws (\<^verbatim>\<open>setVisible(false)\<close> of the current composite when another id is current,
  \<^verbatim>\<open>setVisible(true)\<close> and \<^verbatim>\<open>layout\<close> of the entry's composite), the call shows
  the entry (it is the current one, its element has \<^verbatim>\<open>display: block\<close>,
  \<^verbatim>\<open>setVisible(true)\<close> was called) and returns the stored composite. If one of them
  throws, that exception leaves \<^verbatim>\<open>openComposite\<close>: the calls are outside its
  \<^verbatim>\<open>try\<close>.
\<close>

theorem open_existing_composite:
  assumes re: "reachable ev host_el (h, w, ps)"
    and m: "map_of (composites h) compositeId = Some existing"
    and live: "\<not> store_isDisposed w (disposables existing)"
    and op: "openComposite ev compositeId h w = (r, h', w')"
  shows "instantiations w' = instantiations w \<and> fresh w' = fresh w \<and>
         composites h' = composites h \<and>
         (if show_throws ev compositeId existing h
          then \<exists>i c. r = Inl (CompositeError i c) \<and> (i, c) \<in> set (new_calls w w')
          else r = Inr (Some (composite existing)) \<and>
               currentCompositeId h' = Some compositeId \<and>
               display_of w' (entry_container existing) = Some ''block'' \<and>
               (oid (composite existing), SetVisible True) \<in> set (new_calls w w'))"
proof -
  obtain r1 h1 w1 where bg: "openComposite_begin ev compositeId h w = (r1, h1, w1)"
    using prod_cases3 by blast
  note B = open_existing_begin [OF re m live bg]
  show ?thesis
  proof (cases "show_throws ev compositeId existing h")
    case True
    then obtain i c where r1: "r1 = Inl (CompositeError i c)" "(i, c) \<in> set (new_calls w w1)"
      using B by auto
    then have "r = Inl (CompositeError i c)" "h' = h1" "w' = w1"
      using op bg by (simp_all add: openComposite_def)
    then show ?thesis using B True r1 by simp
  next
    case False
    then have r1: "r1 = Inr (Returned (Some (composite existing)))" using B by simp
    then have "r = Inr (Some (composite existing))" "h' = h1" "w' = w1"
      using op bg by (simp_all add: openComposite_def)
    then show ?thesis using B False by simp
  qed
qed

theorem open_existing_composite_witness:
  "reachable ex_env 0
     (ex_opened_host ''workbench.view.explorer'', ex_opened_world ''workbench.view.explorer'', []) \<and>
   map_of (composites (ex_opened_host ''workbench.view.explorer'')) ''workbench.view.explorer''
     = Some (ex_entry []) \<and>
   \<not> store_isDisposed (ex_opened_world ''workbench.view.explorer'') (disposables (ex_entry [])) \<and>
   \<not> show_throws ex_env ''workbench.view.explorer'' (ex_entry [])
       (ex_opened_host ''workbench.view.explorer'') \<and>
   fst (openComposite ex_env ''workbench.view.explorer''
          (ex_opened_host ''workbench.view.explorer'')
          (ex_opened_world ''workbench.view.explorer''))
     = Inr (Some \<lparr>oid = 1, faults = []\<rparr>) \<and>
   composites (fst (snd (openComposite ex_env ''workbench.view.explorer''
          (ex_opened_host ''workbench.view.explorer'')
          (ex_opened_world ''workbench.view.explorer''))))
     = [(''workbench.view.explorer'', ex_entry [])] \<and>
   display_of (snd (snd (openComposite ex_env ''workbench.view.explorer''
          (ex_opened_host ''workbench.view.explorer'')
          (ex_opened_world ''workbench.view.explorer'')))) 3 = Some ''block'' \<and>
   instantiations (snd (snd (openComposite ex_env ''workbench.view.explorer''
          (ex_opened_host ''workbench.view.explorer'')
          (ex_opened_world ''workbench.view.explorer''))))
     = [''workbench.view.explorer''] \<and>
   show_throws ex_env ''workbench.view.explorer'' (ex_entry [])
     (ex_second_host ''workbench.view.explorer'' ''broken.hide'') \<and>
   (\<exists>i c. fst (openComposite ex_env ''workbench.view.explorer''
             (ex_second_host ''workbench.view.explorer'' ''broken.hide'')
             (ex_second_world ''workbench.view.explorer'' ''broken.hide''))
        = Inl (CompositeError i c)) \<and>
   instantiations (snd (snd (openComposite ex_env ''workbench.view.explorer''
          (ex_second_host ''workbench.view.explorer'' ''broken.hide'')
          (ex_second_world ''workbench.view.explorer'' ''broken.hide''))))
     = [''workbench.view.explorer'', ''broken.hide'']"
proof -
  let ?h = "ex_opened_host ''workbench.view.explorer''"
  let ?w = "ex_opened_world ''workbench.view.explorer''"
  let ?r = "openComposite ex_env ''workbench.view.explorer'' ?h ?w"
  let ?h2 = "ex_second_host ''workbench.view.explorer'' ''broken.hide''"
  let ?w2 = "ex_second_world ''workbench.view.explorer'' ''broken.hide''"
  let ?r2 = "openComposite ex_env ''workbench.view.explorer'' ?h2 ?w2"
  have m2: "map_of (composites ?h2) ''workbench.view.explorer'' = Some (ex_entry [])"
    and live2: "\<not> store_isDisposed ?w2 (disposables (ex_entry []))"
    by (simp_all add: ex_hide_second ex_entry_def store_isDisposed_def)
  have st: "show_throws ex_env ''workbench.view.explorer'' (ex_entry []) ?h2"
    by (simp add: show_throws_def ex_hide_second ex_entry2_def)
  have eq2: "?r2 = (fst ?r2, fst (snd ?r2), snd (snd ?r2))" by simp
  note T2 = open_existing_composite [OF ex_reachable_second m2 live2 eq2]
  have "instantiations (snd (snd ?r2)) = instantiations ?w2"
    using T2 by simp
  then have 5: "instantiations (snd (snd ?r2)) = [''workbench.view.explorer'', ''broken.hide'']"
    by (simp add: ex_hide_second)
  from T2 have "if show_throws ex_env ''workbench.view.explorer'' (ex_entry []) ?h2
      then \<exists>i c. fst ?r2 = Inl (CompositeError i c) \<and>
             (i, c) \<in> set (new_calls ?w2 (snd (snd ?r2)))
      else fst ?r2 = Inr (Some (composite (ex_entry []))) \<and>
           currentCompositeId (fst (snd ?r2)) = Some ''workbench.view.explorer'' \<and>
           display_of (snd (snd ?r2)) (entry_container (ex_entry [])) = Some ''block'' \<and>
           (oid (composite (ex_entry [])), SetVisible True)
             \<in> set (new_calls ?w2 (snd (snd ?r2)))"
    by (elim conjE)
  from if_holds [OF st this]
  have 6: "\<exists>i c. fst ?r2 = Inl (CompositeError i c)" by blast
  have m: "map_of (composites ?h) ''workbench.view.explorer'' = Some (ex_entry [])"
    by (simp add: ex_explorer_opened)
  have live: "\<not> store_isDisposed ?w (disposables (ex_entry []))"
    by (simp add: store_isDisposed_def ex_explorer_opened ex_entry_def)
  have nt: "\<not> show_throws ex_env ''workbench.view.explorer'' (ex_entry []) ?h"
    by (simp add: show_throws_def ex_explorer_opened ex_entry_def)
  have eq: "?r = (fst ?r, fst (snd ?r), snd (snd ?r))" by simp
  note T = open_existing_composite [OF ex_reachable_opened m live eq]
  have "instantiations (snd (snd ?r)) = instantiations ?w"
    and "composites (fst (snd ?r)) = composites ?h"
    using T by simp_all
  then have 1: "instantiations (snd (snd ?r)) = [''workbench.view.explorer'']"
    and 2: "composites (fst (snd ?r)) = [(''workbench.view.explorer'', ex_entry [])]"
    by (simp_all add: ex_explorer_opened)
  from T have "if show_throws ex_env ''workbench.view.explorer'' (ex_entry []) ?h
      then \<exists>i c. fst ?r = Inl (CompositeError i c) \<and> (i, c) \<in> set (new_calls ?w (snd (snd ?r)))
      else fst ?r = Inr (Some (composite (ex_entry []))) \<and>
           currentCompositeId (fst (snd ?r)) = Some ''workbench.view.explorer'' \<and>
           display_of (snd (snd ?r)) (entry_container (ex_entry [])) = Some ''block'' \<and>
           (oid (composite (ex_entry [])), SetVisible True) \<in> set (new_calls ?w (snd (snd ?r)))"
    by (elim conjE)
  from if_fails [OF nt this]
  have 3: "fst ?r = Inr (Some \<lparr>oid = 1, faults = []\<rparr>)"
    and 4: "display_of (snd (snd ?r)) 3 = Some ''block''"
    by (simp_all add: ex_entry_def)
  show ?thesis
    using ex_reachable_opened [of "''workbench.view.explorer''"] m live nt 1 2 3 4 st 5 6
    by simp
qed

text \<open>
  The claim as stated fails when a composite method throws. Below, the explorer was opened
  and then a composite whose \<^verbatim>\<open>setVisible(false)\<close> throws, which is now the current
  one. \<^verbatim>\<open>openComposite\<close> for the explorer, whose entry is live, calls
  \<^verbatim>\<open>hideComposite\<close> at line 57; the exception leaves \<^verbatim>\<open>openComposite\<close>, the
  explorer is not shown and nothing is returned.
\<close>

theorem reopen_throws_when_hiding_current_fails:
  "reachable ex_env 0
     (ex_second_host ''workbench.view.explorer'' ''broken.hide'',
      ex_second_world ''workbench.view.explorer'' ''broken.hide'', []) \<and>
   map_of (composites (ex_second_host ''workbench.view.explorer'' ''broken.hide''))
     ''workbench.view.explorer'' = Some (ex_entry []) \<and>
   \<not> store_isDisposed (ex_second_world ''workbench.view.explorer'' ''broken.hide'')
       (disposables (ex_entry [])) \<and>
   currentCompositeId (ex_second_host ''workbench.view.explorer'' ''broken.hide'')
     = Some ''broken.hide'' \<and>
   fst (openComposite ex_env ''workbench.view.explorer''
          (ex_second_host ''workbench.view.explorer'' ''broken.hide'')
          (ex_second_world ''workbench.view.explorer'' ''broken.hide''))
     = Inl (CompositeError 4 (SetVisible False)) \<and>
   currentCompositeId (fst (snd (openComposite ex_env ''workbench.view.explorer''
          (ex_second_host ''workbench.view.explorer'' ''broken.hide'')
          (ex_second_world ''workbench.view.explorer'' ''broken.hide''))))
     = Some ''broken.hide'' \<and>
   display_of (snd (snd (openComposite ex_env ''workbench.view.explorer''
          (ex_second_host ''workbench.view.explorer'' ''broken.hide'')
          (ex_second_world ''workbench.view.explorer'' ''broken.hide'')))) 3
     = Some ''none'' \<and>
   new_calls (ex_second_world ''workbench.view.explorer'' ''broken.hide'')
     (snd (snd (openComposite ex_env ''workbench.view.explorer''
          (ex_second_host ''workbench.view.explorer'' ''broken.hide'')
          (ex_second_world ''workbench.view.explorer'' ''broken.hide''))))
     = [(4, SetVisible False)]"
proof -
  let ?h = "ex_second_host ''workbench.view.explorer'' ''broken.hide''"
  let ?w = "ex_second_world ''workbench.view.explorer'' ''broken.hide''"
  let ?r = "openComposite ex_env ''workbench.view.explorer'' ?h ?w"
  have 1: "map_of (composites ?h) ''workbench.view.explorer'' = Some (ex_entry [])"
    and 2: "\<not> store_isDisposed ?w (disposables (ex_entry []))"
    and 3: "currentCompositeId ?h = Some ''broken.hide''"
    by (simp_all add: ex_hide_second ex_entry_def store_isDisposed_def)
  have 4: "fst ?r = Inl (CompositeError 4 (SetVisible False))"
    and 5: "currentCompositeId (fst (snd ?r)) = Some ''broken.hide''"
    and 6: "display_of (snd (snd ?r)) 3 = Some ''none''"
    and 7: "new_calls ?w (snd (snd ?r)) = [(4, SetVisible False)]"
    by (simp_all add: ex_hide_second ex_defs op_defs new_calls_def)
  show ?thesis
    using ex_reachable_second [of "''workbench.view.explorer''" "''broken.hide''"] 1 2 3 4 5 6 7
    by simp
qed

text \<open>
  What a switch does to the composite that was current, when its id is not the empty
  string: it is only hidden.
\<close>

lemma switch_hides_previous:
  assumes re: "reachable ev host_el (h, w, ps)"
    and cur: "currentCompositeId h = Some previous" "previous \<noteq> []"
    and mp: "map_of (composites h) previous = Some ep"
    and ne: "compositeId \<noteq> previous"
  shows "(\<forall>c h' w'. openComposite ev compositeId h w = (Inr (Some c), h', w') \<longrightarrow>
            currentCompositeId h' = Some compositeId \<and>
            map_of (composites h') previous = Some ep \<and> only_hidden ep w w') \<and>
         (\<forall>e h' w'. map_of (composites h) compositeId = Some e \<and>
            showComposite ev compositeId h w = (Inr (), h', w') \<longrightarrow>
            currentCompositeId h' = Some compositeId \<and>
            map_of (composites h') previous = Some ep \<and> only_hidden ep w w')"
proof -
  note D = host_invD [OF reachable_host_inv [OF re]]
  have okp: "entry_ok w ep" using entries_invD(2) [OF D(4) mp] .
  then have lt: "entry_container ep < fresh w" "disposables ep < fresh w"
    and el: "elements w (entry_container ep) \<noteq> None"
    by (simp_all add: entry_ok_def)
  \<comment> \<open>what a successful \<open>showComposite\<close> does to the previous entry, from any world \<open>ws\<close>
      that kept the old objects\<close>
  have shown: "currentCompositeId h2 = Some compositeId \<and>
        map_of (composites h2) previous = Some ep \<and> only_hidden ep w w'"
    if ks: "keeps_below (fresh w) w ws"
      and c: "currentCompositeId hs = currentCompositeId h"
      and m: "\<forall>p. p \<noteq> compositeId \<longrightarrow> map_of (composites hs) p = map_of (composites h) p"
      and mk: "map_of (composites hs) compositeId = Some e"
      and old: "map_of (composites h) compositeId = Some e \<or> fresh w \<le> entry_container e"
      and sh: "showComposite ev compositeId hs ws = (Inr (), h2, w')"
    for hs ws e h2 w'
  proof -
    have mps: "map_of (composites hs) previous = Some ep" using m mp ne by simp
    have diff: "entry_container ep \<noteq> entry_container e"
      using old lt(1) entries_invD(3) [OF D(4) mp, of compositeId e] ne by auto
    have els: "elements ws (entry_container ep) \<noteq> None"
      using ks el lt(1) by (simp add: keeps_below_def)
    have curs: "currentCompositeId hs = Some previous" using c cur(1) by simp
    note H = showComposite_hides_previous [OF sh mk curs cur(2) ne [symmetric] mps diff els]
    note F = frame_facts [OF showComposite_frame [OF sh]]
    have c1: "\<exists>cs. calls ws = calls w @ cs" using ks by (simp add: keeps_below_def)
    have c2: "\<exists>cs. calls w' = calls ws @ cs"
      using showComposite_frame [OF sh] by (simp add: frame_def)
    have "stores w' (disposables ep) = stores w (disposables ep)"
      using F(1) ks lt(2) by (simp add: keeps_below_def)
    moreover have "parent_of w' (entry_container ep) = parent_of w (entry_container ep)"
      using F(5) ks lt(1) by (simp add: keeps_below_def)
    moreover have "(oid (composite ep), SetVisible False) \<in> set (new_calls w w')"
      using H new_calls_right [OF c1 c2] by blast
    moreover have "currentCompositeId h2 = Some compositeId"
      using showComposite_shown [OF sh mk] by simp
    moreover have "map_of (composites h2) previous = Some ep"
      using showComposite_fields [OF sh] mps by simp
    ultimately show ?thesis using H by (simp add: only_hidden_def)
  qed
  have a: "currentCompositeId h' = Some compositeId \<and>
        map_of (composites h') previous = Some ep \<and> only_hidden ep w w'"
    if op: "openComposite ev compositeId h w = (Inr (Some c), h', w')" for c h' w'
  proof -
    from op obtain hs ws e h2 where
      1: "keeps_below (fresh w) w ws"
      "currentCompositeId hs = currentCompositeId h"
      "\<forall>p. p \<noteq> compositeId \<longrightarrow> map_of (composites hs) p = map_of (composites h) p"
      "map_of (composites hs) compositeId = Some e"
      "map_of (composites h) compositeId = Some e \<or> fresh w \<le> entry_container e"
      "showComposite ev compositeId hs ws = (Inr (), h2, w')"
      and 2: "composites h' = composites h2" "currentCompositeId h' = currentCompositeId h2"
      by (rule openComposite_success) blast
    from shown [OF 1] 2 show ?thesis by simp
  qed
  have b: "currentCompositeId h' = Some compositeId \<and>
        map_of (composites h') previous = Some ep \<and> only_hidden ep w w'"
    if "map_of (composites h) compositeId = Some e"
      "showComposite ev compositeId h w = (Inr (), h', w')" for e h' w'
    using shown [of w h e h' w'] that by simp
  show ?thesis using a b by blast
qed


text \<open>
  Claim C3 (safe teardown), as amended. In every configuration a host can reach: if no
  stored composite throws from \<^verbatim>\<open>setVisible(false)\<close>, and none whose store is still
  live throws from \<^verbatim>\<open>dispose\<close>, then \<^verbatim>\<open>dispose\<close> returns, has called
  \<^verbatim>\<open>setVisible(false)\<close> on every stored composite, leaves every stored entry's store
  disposed (the composite itself was disposed with it, now or when the store was disposed
  earlier), leaves every stored element without a parent, and empties the map. Otherwise
  an exception leaves \<^verbatim>\<open>dispose\<close> and the map is not cleared: the loop of lines
  248-252 has no \<^verbatim>\<open>try\<close>.
\<close>

theorem dispose_tears_down:
  assumes re: "reachable ev host_el (h, w, ps)" and di: "dispose h w = (r, h', w')"
  shows "if \<forall>k e. map_of (composites h) k = Some e \<longrightarrow>
              SetVisible False \<notin> set (faults (composite e)) \<and>
              (store_isDisposed w (disposables e) \<or> Dispose \<notin> set (faults (composite e)))
         then r = Inr () \<and> composites h' = [] \<and>
              (\<forall>k e. map_of (composites h) k = Some e \<longrightarrow>
                 (oid (composite e), SetVisible False) \<in> set (new_calls w w') \<and>
                 store_isDisposed w' (disposables e) \<and>
                 (store_isDisposed w (disposables e) \<or>
                  (oid (composite e), Dispose) \<in> set (new_calls w w')) \<and>
                 parent_of w' (entry_container e) = None)
         else (\<exists>x. r = Inl x) \<and> composites h' = composites h"
proof -
  note D = host_invD [OF reachable_host_inv [OF re]]
  note E = entries_invD [OF D(4)]
  have mem: "(k, e) \<in> set (composites h) \<longleftrightarrow> map_of (composites h) k = Some e" for k e
    using E(1) by simp
  obtain r1 w1 where de: "dispose_entries (composites h) w = (r1, w1)" by fastforce
  have inj: "\<forall>k e k' e'. (k, e) \<in> set (composites h) \<and> (k', e') \<in> set (composites h) \<and>
             disposables e = disposables e' \<longrightarrow> k = k'"
    using E(3) mem by blast
  have ok: "\<forall>k e. (k, e) \<in> set (composites h) \<longrightarrow>
             (\<exists>st. stores w (disposables e) = Some st \<and>
                (isDisposed st \<or> toDispose st = [composite e]))"
    using E(2) mem by (auto simp: entry_ok_def)
  have R: "(r1 = Inr ()) =
      (\<forall>k e. map_of (composites h) k = Some e \<longrightarrow>
          SetVisible False \<notin> set (faults (composite e)) \<and>
          (store_isDisposed w (disposables e) \<or> Dispose \<notin> set (faults (composite e))))"
    using dispose_entries_result [OF de E(1) inj ok] mem by simp
  show ?thesis
  proof (cases r1)
    case (Inl x)
    then have "r = Inl x" "composites h' = composites h"
      using di de by (auto simp: dispose_def)
    then show ?thesis using R Inl by auto
  next
    case (Inr u)
    then have res: "r = Inr ()" "composites h' = []" "w' = w1"
      using di de by (auto simp: dispose_def)
    have "(oid (composite e), SetVisible False) \<in> set (new_calls w w') \<and>
             store_isDisposed w' (disposables e) \<and>
             (store_isDisposed w (disposables e) \<or>
              (oid (composite e), Dispose) \<in> set (new_calls w w')) \<and>
             parent_of w' (entry_container e) = None"
      if "map_of (composites h) k = Some e" for k e
      using dispose_entries_post [OF de [unfolded Inr] E(1) inj ok, of k e] that mem res(3)
      by blast
    then show ?thesis using res R Inr by auto
  qed
qed

theorem dispose_tears_down_witness:
  "reachable ex_env 0
     (ex_opened_host ''workbench.view.explorer'', ex_opened_world ''workbench.view.explorer'', []) \<and>
   map_of (composites (ex_opened_host ''workbench.view.explorer'')) ''workbench.view.explorer''
     = Some (ex_entry []) \<and>
   fst (dispose (ex_opened_host ''workbench.view.explorer'')
          (ex_opened_world ''workbench.view.explorer'')) = Inr () \<and>
   composites (fst (snd (dispose (ex_opened_host ''workbench.view.explorer'')
          (ex_opened_world ''workbench.view.explorer'')))) = [] \<and>
   store_isDisposed (snd (snd (dispose (ex_opened_host ''workbench.view.explorer'')
          (ex_opened_world ''workbench.view.explorer'')))) 2 \<and>
   parent_of (snd (snd (dispose (ex_opened_host ''workbench.view.explorer'')
          (ex_opened_world ''workbench.view.explorer'')))) 3 = None \<and>
   (1, SetVisible False) \<in> set (new_calls (ex_opened_world ''workbench.view.explorer'')
      (snd (snd (dispose (ex_opened_host ''workbench.view.explorer'')
          (ex_opened_world ''workbench.view.explorer''))))) \<and>
   (1, Dispose) \<in> set (new_calls (ex_opened_world ''workbench.view.explorer'')
      (snd (snd (dispose (ex_opened_host ''workbench.view.explorer'')
          (ex_opened_world ''workbench.view.explorer''))))) \<and>
   map_of (composites (ex_second_host ''workbench.view.explorer'' ''broken.hide''))
     ''broken.hide'' = Some (ex_entry2 [SetVisible False]) \<and>
   (\<exists>x. fst (dispose (ex_second_host ''workbench.view.explorer'' ''broken.hide'')
            (ex_second_world ''workbench.view.explorer'' ''broken.hide'')) = Inl x) \<and>
   composites (fst (snd (dispose (ex_second_host ''workbench.view.explorer'' ''broken.hide'')
            (ex_second_world ''workbench.view.explorer'' ''broken.hide''))))
     = composites (ex_second_host ''workbench.view.explorer'' ''broken.hide'')"
proof -
  let ?h = "ex_opened_host ''workbench.view.explorer''"
  let ?w = "ex_opened_world ''workbench.view.explorer''"
  let ?r = "dispose ?h ?w"
  let ?h2 = "ex_second_host ''workbench.view.explorer'' ''broken.hide''"
  let ?w2 = "ex_second_world ''workbench.view.explorer'' ''broken.hide''"
  let ?r2 = "dispose ?h2 ?w2"
  have m2: "map_of (composites ?h2) ''broken.hide'' = Some (ex_entry2 [SetVisible False])"
    by (simp add: ex_hide_second)
  have "\<not> (SetVisible False \<notin> set (faults (composite (ex_entry2 [SetVisible False]))) \<and>
           (store_isDisposed ?w2 (disposables (ex_entry2 [SetVisible False])) \<or>
            Dispose \<notin> set (faults (composite (ex_entry2 [SetVisible False])))))"
    by (simp add: ex_entry2_def)
  with m2 have nok: "\<not> (\<forall>k e. map_of (composites ?h2) k = Some e \<longrightarrow>
              SetVisible False \<notin> set (faults (composite e)) \<and>
              (store_isDisposed ?w2 (disposables e) \<or> Dispose \<notin> set (faults (composite e))))"
    by blast
  have eq2: "?r2 = (fst ?r2, fst (snd ?r2), snd (snd ?r2))" by simp
  note T2 = if_fails [OF nok dispose_tears_down [OF ex_reachable_second eq2]]
  note 4 = T2 [THEN conjunct1] and 5 = T2 [THEN conjunct2]
  have m: "map_of (composites ?h) ''workbench.view.explorer'' = Some (ex_entry [])"
    by (simp add: ex_explorer_opened)
  have nd: "\<not> store_isDisposed ?w (disposables (ex_entry []))"
    by (simp add: store_isDisposed_def ex_explorer_opened ex_entry_def)
  have ok: "\<forall>k e. map_of (composites ?h) k = Some e \<longrightarrow>
              SetVisible False \<notin> set (faults (composite e)) \<and>
              (store_isDisposed ?w (disposables e) \<or> Dispose \<notin> set (faults (composite e)))"
    by (auto simp: ex_explorer_opened ex_entry_def split: if_splits)
  have eq: "?r = (fst ?r, fst (snd ?r), snd (snd ?r))" by simp
  note T = if_holds [OF ok dispose_tears_down [OF ex_reachable_opened eq]]
  note 1 = T [THEN conjunct1] and 2 = T [THEN conjunct2, THEN conjunct1]
  have 3: "\<forall>k e. map_of (composites ?h) k = Some e \<longrightarrow>
                 (oid (composite e), SetVisible False) \<in> set (new_calls ?w (snd (snd ?r))) \<and>
                 store_isDisposed (snd (snd ?r)) (disposables e) \<and>
                 (store_isDisposed ?w (disposables e) \<or>
                  (oid (composite e), Dispose) \<in> set (new_calls ?w (snd (snd ?r)))) \<and>
                 parent_of (snd (snd ?r)) (entry_container e) = None"
    using T [THEN conjunct2, THEN conjunct2] .
  from 3 m nd have "(oid (composite (ex_entry [])), SetVisible False)
        \<in> set (new_calls ?w (snd (snd ?r))) \<and>
      store_isDisposed (snd (snd ?r)) (disposables (ex_entry [])) \<and>
      (oid (composite (ex_entry [])), Dispose) \<in> set (new_calls ?w (snd (snd ?r))) \<and>
      parent_of (snd (snd ?r)) (entry_container (ex_entry [])) = None"
    by blast
  then show ?thesis
    using m 1 2 ex_reachable_opened [of "''workbench.view.explorer''"] m2 4 5
    by (simp add: ex_entry_def)
qed

text \<open>
  The claim as stated fails when a stored composite throws. Below, the host holds the
  explorer and a composite whose \<^verbatim>\<open>setVisible(false)\<close> throws. \<^verbatim>\<open>dispose\<close> tears
  the explorer down and then stops with the exception: the map still holds both entries,
  the store of the second composite is not disposed and its element is still in the
  host's container.
\<close>

theorem dispose_stops_at_throwing_composite:
  "reachable ex_env 0
     (ex_second_host ''workbench.view.explorer'' ''broken.hide'',
      ex_second_world ''workbench.view.explorer'' ''broken.hide'', []) \<and>
   composites (ex_second_host ''workbench.view.explorer'' ''broken.hide'')
     = [(''workbench.view.explorer'', ex_entry []),
        (''broken.hide'', ex_entry2 [SetVisible False])] \<and>
   fst (dispose (ex_second_host ''workbench.view.explorer'' ''broken.hide'')
          (ex_second_world ''workbench.view.explorer'' ''broken.hide''))
     = Inl (CompositeError 4 (SetVisible False)) \<and>
   composites (fst (snd (dispose (ex_second_host ''workbench.view.explorer'' ''broken.hide'')
          (ex_second_world ''workbench.view.explorer'' ''broken.hide''))))
     = [(''workbench.view.explorer'', ex_entry []),
        (''broken.hide'', ex_entry2 [SetVisible False])] \<and>
   new_calls (ex_second_world ''workbench.view.explorer'' ''broken.hide'')
     (snd (snd (dispose (ex_second_host ''workbench.view.explorer'' ''broken.hide'')
          (ex_second_world ''workbench.view.explorer'' ''broken.hide''))))
     = [(1, SetVisible False), (1, Dispose), (4, SetVisible False)] \<and>
   \<not> store_isDisposed
       (snd (snd (dispose (ex_second_host ''workbench.view.explorer'' ''broken.hide'')
          (ex_second_world ''workbench.view.explorer'' ''broken.hide'')))) 5 \<and>
   parent_of
       (snd (snd (dispose (ex_second_host ''workbench.view.explorer'' ''broken.hide'')
          (ex_second_world ''workbench.view.explorer'' ''broken.hide'')))) 6 = Some 0"
proof -
  let ?h = "ex_second_host ''workbench.view.explorer'' ''broken.hide''"
  let ?w = "ex_second_world ''workbench.view.explorer'' ''broken.hide''"
  let ?r = "dispose ?h ?w"
  have 1: "composites ?h = [(''workbench.view.explorer'', ex_entry []),
        (''broken.hide'', ex_entry2 [SetVisible False])]"
    by (simp add: ex_hide_second)
  have 2: "fst ?r = Inl (CompositeError 4 (SetVisible False))"
    and 3: "composites (fst (snd ?r)) = [(''workbench.view.explorer'', ex_entry []),
        (''broken.hide'', ex_entry2 [SetVisible False])]"
    and 4: "new_calls ?w (snd (snd ?r))
        = [(1, SetVisible False), (1, Dispose), (4, SetVisible False)]"
    and 5: "\<not> store_isDisposed (snd (snd ?r)) 5"
    and 6: "parent_of (snd (snd ?r)) 6 = Some 0"
    by (simp_all add: dispose_def ex_hide_second ex_defs op_defs new_calls_def)
  show ?thesis
    using ex_reachable_second [of "''workbench.view.explorer''" "''broken.hide''"] 1 2 3 4 5 6
    by simp
qed

text \<open>
  Claim C5 (atomicity on creation failure), as amended. When a suspended
  \<^verbatim>\<open>openComposite\<close> resumes, the id is removed from the creating set whatever
  happens, and the map had no entry for the id. If the descriptor's \<^verbatim>\<open>instantiate\<close>
  threw, or returned nothing, nothing was created: \<^verbatim>\<open>openComposite\<close> returns
  \<^verbatim>\<open>undefined\<close> and the map and the objects are as they were. If \<^verbatim>\<open>create\<close> or
  \<^verbatim>\<open>updateStyles\<close> throws, the new store is disposed (\<^verbatim>\<open>dispose\<close> was called on
  the composite), the new element has no parent, the map is unchanged and
  \<^verbatim>\<open>openComposite\<close> returns \<^verbatim>\<open>undefined\<close>. If the first \<^verbatim>\<open>showComposite\<close>
  throws, the new store is disposed as well, but the entry stored at line 137 is in the
  map; when the composite's \<^verbatim>\<open>dispose\<close> does not throw, the new element is removed
  and \<^verbatim>\<open>openComposite\<close> returns \<^verbatim>\<open>undefined\<close>, and when it throws, that
  exception leaves \<^verbatim>\<open>openComposite\<close> from the \<^verbatim>\<open>catch\<close> of lines 145-156 and the
  element stays in the host's container. If nothing throws, the composite is returned.
\<close>

theorem creation_failure_cleanup:
  assumes re: "reachable ev host_el (h, w, ps1 @ (compositeId, a) # ps2)"
    and rs: "openComposite_resume ev compositeId a h w = (res, h', w')"
  shows "compositeId \<notin> creatingComposites h' \<and> map_of (composites h) compositeId = None \<and>
         (case a of
            Inl x \<Rightarrow> res = Inr None \<and> composites h' = composites h \<and> w' = w
          | Inr None \<Rightarrow> res = Inr None \<and> composites h' = composites h \<and> w' = w
          | Inr (Some c) \<Rightarrow>
              (if Create (Suc (fresh w)) \<in> set (faults c) \<or> UpdateStyles \<in> set (faults c) then
                 res = Inr None \<and> composites h' = composites h \<and>
                 store_isDisposed w' (fresh w) \<and> (oid c, Dispose) \<in> set (new_calls w w') \<and>
                 parent_of w' (Suc (fresh w)) = None
               else if show_throws ev compositeId
                         \<lparr>composite = c, entry_container = Suc (fresh w), disposables = fresh w\<rparr> h
               then
                 composites h' =
                   AList.update compositeId
                     \<lparr>composite = c, entry_container = Suc (fresh w), disposables = fresh w\<rparr>
                     (composites h) \<and>
                 store_isDisposed w' (fresh w) \<and> (oid c, Dispose) \<in> set (new_calls w w') \<and>
                 (if Dispose \<in> set (faults c)
                  then res = Inl (CompositeError (oid c) Dispose) \<and>
                       parent_of w' (Suc (fresh w)) = Some host_el
                  else res = Inr None \<and> parent_of w' (Suc (fresh w)) = None)
               else res = Inr (Some c)))"
proof -
  note D = host_invD [OF reachable_host_inv [OF re]]
  note P = pending_invD [OF D(5)]
  note U = openComposite_resume_unfold [OF rs]
  have kn: "map_of (composites h) compositeId = None" using P(3) [of compositeId] by simp
  have cr: "compositeId \<notin> creatingComposites h'" using U by simp
  show ?thesis
  proof (cases "\<exists>c. a = Inr (Some c)")
    case False
    then have "res = Inr None \<and> composites h' = composites h \<and> w' = w"
      using U by (cases a) (auto split: option.splits)
    then show ?thesis using cr kn False by (cases a) (auto split: option.splits)
  next
    case True
    then obtain c where a: "a = Inr (Some c)" by blast
    obtain h1 where cs: "create_and_show ev compositeId c h w = (res, h1, w')"
      and h': "h' = h1\<lparr>creatingComposites := creatingComposites h1 - {compositeId}\<rparr>"
      using U a by auto
    define e where "e = \<lparr>composite = c, entry_container = Suc (fresh w), disposables = fresh w\<rparr>"
    note C = create_and_show_effect [OF cs, folded e_def]
    have co: "composites h' = composites h1" by (simp add: h')
    have "if Create (Suc (fresh w)) \<in> set (faults c) \<or> UpdateStyles \<in> set (faults c) then
                 res = Inr None \<and> composites h' = composites h \<and>
                 store_isDisposed w' (fresh w) \<and> (oid c, Dispose) \<in> set (new_calls w w') \<and>
                 parent_of w' (Suc (fresh w)) = None
          else if show_throws ev compositeId e h then
                 composites h' = AList.update compositeId e (composites h) \<and>
                 store_isDisposed w' (fresh w) \<and> (oid c, Dispose) \<in> set (new_calls w w') \<and>
                 (if Dispose \<in> set (faults c)
                  then res = Inl (CompositeError (oid c) Dispose) \<and>
                       parent_of w' (Suc (fresh w)) = Some host_el
                  else res = Inr None \<and> parent_of w' (Suc (fresh w)) = None)
          else res = Inr (Some c)"
      using C co D(1) by (auto simp: store_isDisposed_def split: if_splits)
    then show ?thesis
      using cr kn by (simp add: a e_def)
  qed
qed

theorem creation_failure_cleanup_witness:
  "reachable ex_env 0
     (ex_pending_host ''broken.styles'', ex_pending_world ''broken.styles'',
      [] @ (''broken.styles'', Inr (Some \<lparr>oid = 1, faults = [UpdateStyles]\<rparr>)) # []) \<and>
   fst (openComposite_resume ex_env ''broken.styles''
          (Inr (Some \<lparr>oid = 1, faults = [UpdateStyles]\<rparr>))
          (ex_pending_host ''broken.styles'') (ex_pending_world ''broken.styles'')) = Inr None \<and>
   ''broken.styles'' \<notin> creatingComposites
      (fst (snd (openComposite_resume ex_env ''broken.styles''
          (Inr (Some \<lparr>oid = 1, faults = [UpdateStyles]\<rparr>))
          (ex_pending_host ''broken.styles'') (ex_pending_world ''broken.styles'')))) \<and>
   composites
      (fst (snd (openComposite_resume ex_env ''broken.styles''
          (Inr (Some \<lparr>oid = 1, faults = [UpdateStyles]\<rparr>))
          (ex_pending_host ''broken.styles'') (ex_pending_world ''broken.styles'')))) = [] \<and>
   store_isDisposed
      (snd (snd (openComposite_resume ex_env ''broken.styles''
          (Inr (Some \<lparr>oid = 1, faults = [UpdateStyles]\<rparr>))
          (ex_pending_host ''broken.styles'') (ex_pending_world ''broken.styles'')))) 2 \<and>
   parent_of
      (snd (snd (openComposite_resume ex_env ''broken.styles''
          (Inr (Some \<lparr>oid = 1, faults = [UpdateStyles]\<rparr>))
          (ex_pending_host ''broken.styles'') (ex_pending_world ''broken.styles'')))) 3 = None \<and>
   reachable ex_env 0
     (ex_pending_host ''broken.layout'', ex_pending_world ''broken.layout'',
      [] @ (''broken.layout'',
            Inr (Some \<lparr>oid = 1, faults = [Layout (Dimension 300 600)]\<rparr>)) # []) \<and>
   show_throws ex_env ''broken.layout'' (ex_entry [Layout (Dimension 300 600)])
     (ex_pending_host ''broken.layout'') \<and>
   fst (openComposite_resume ex_env ''broken.layout''
          (Inr (Some \<lparr>oid = 1, faults = [Layout (Dimension 300 600)]\<rparr>))
          (ex_pending_host ''broken.layout'') (ex_pending_world ''broken.layout'')) = Inr None \<and>
   composites
      (fst (snd (openComposite_resume ex_env ''broken.layout''
          (Inr (Some \<lparr>oid = 1, faults = [Layout (Dimension 300 600)]\<rparr>))
          (ex_pending_host ''broken.layout'') (ex_pending_world ''broken.layout''))))
     = [(''broken.layout'', ex_entry [Layout (Dimension 300 600)])] \<and>
   store_isDisposed
      (snd (snd (openComposite_resume ex_env ''broken.layout''
          (Inr (Some \<lparr>oid = 1, faults = [Layout (Dimension 300 600)]\<rparr>))
          (ex_pending_host ''broken.layout'') (ex_pending_world ''broken.layout'')))) 2 \<and>
   parent_of
      (snd (snd (openComposite_resume ex_env ''broken.layout''
          (Inr (Some \<lparr>oid = 1, faults = [Layout (Dimension 300 600)]\<rparr>))
          (ex_pending_host ''broken.layout'') (ex_pending_world ''broken.layout'')))) 3 = None"
proof -
  let ?h2 = "ex_pending_host ''broken.layout''"
  let ?w2 = "ex_pending_world ''broken.layout''"
  let ?c2 = "\<lparr>oid = 1, faults = [Layout (Dimension 300 600)]\<rparr>"
  let ?r2 = "openComposite_resume ex_env ''broken.layout'' (Inr (Some ?c2)) ?h2 ?w2"
  have re2: "reachable ex_env 0 (?h2, ?w2, [] @ (''broken.layout'', Inr (Some ?c2)) # [])"
    using ex_reachable_pending [OF ex_layout_pending] by simp
  have fr2: "fresh ?w2 = 2" "composites ?h2 = []"
    by (simp_all add: ex_pending_host_def ex_pending_world_def ex_defs op_defs)
  have st: "show_throws ex_env ''broken.layout'' (ex_entry [Layout (Dimension 300 600)]) ?h2"
    by (simp add: show_throws_def ex_entry_def ex_env_def)
  have eq2: "?r2 = (fst ?r2, fst (snd ?r2), snd (snd ?r2))" by simp
  note T2 = creation_failure_cleanup [OF re2 eq2]
  then have 2: "fst ?r2 = Inr None \<and>
      composites (fst (snd ?r2)) = [(''broken.layout'', ex_entry [Layout (Dimension 300 600)])] \<and>
      store_isDisposed (snd (snd ?r2)) 2 \<and> parent_of (snd (snd ?r2)) 3 = None"
    using fr2 st by (simp add: numeral_3_eq_3 numeral_2_eq_2 ex_entry_def)
  let ?h = "ex_pending_host ''broken.styles''"
  let ?w = "ex_pending_world ''broken.styles''"
  let ?c = "\<lparr>oid = 1, faults = [UpdateStyles]\<rparr>"
  let ?r = "openComposite_resume ex_env ''broken.styles'' (Inr (Some ?c)) ?h ?w"
  have re: "reachable ex_env 0 (?h, ?w, [] @ (''broken.styles'', Inr (Some ?c)) # [])"
    using ex_reachable_pending [OF ex_styles_pending] by simp
  have fr: "fresh ?w = 2" "composites ?h = []"
    by (simp_all add: ex_pending_host_def ex_pending_world_def ex_defs op_defs)
  have eq: "?r = (fst ?r, fst (snd ?r), snd (snd ?r))" by simp
  note T = creation_failure_cleanup [OF re eq]
  then have "''broken.styles'' \<notin> creatingComposites (fst (snd ?r)) \<and> fst ?r = Inr None \<and>
      store_isDisposed (snd (snd ?r)) 2 \<and> parent_of (snd (snd ?r)) 3 = None \<and>
      composites (fst (snd ?r)) = []"
    using fr by (simp add: numeral_3_eq_3 numeral_2_eq_2)
  then show ?thesis
    using re re2 st 2 by simp
qed

text \<open>
  The claim as stated fails when the step that throws is the first \<^verbatim>\<open>layout\<close>, which
  \<^verbatim>\<open>showComposite\<close> calls inside the \<^verbatim>\<open>try\<close> at line 140: \<^verbatim>\<open>openComposite\<close>
  returns \<^verbatim>\<open>undefined\<close>, and the map, which had no entry for the id, has one.
\<close>

theorem failed_first_layout_leaves_entry:
  "map_of (composites ex_host) ''broken.layout'' = None \<and>
   fst (openComposite ex_env ''broken.layout'' ex_host ex_world0) = Inr None \<and>
   (1, Layout (Dimension 300 600)) \<in> set (calls (ex_opened_world ''broken.layout'')) \<and>
   map_of (composites (ex_opened_host ''broken.layout'')) ''broken.layout''
     = Some (ex_entry [Layout (Dimension 300 600)]) \<and>
   store_isDisposed (ex_opened_world ''broken.layout'') 2 \<and>
   parent_of (ex_opened_world ''broken.layout'') 3 = None \<and>
   creatingComposites (ex_opened_host ''broken.layout'') = {}"
  by (simp add: ex_opened_host_def ex_opened_world_def ex_defs op_defs)

text \<open>
  Claim C6 (concurrent-creation guard). When \<^verbatim>\<open>openComposite\<close> is entered for an id that
  is in the creating set, it returns \<^verbatim>\<open>undefined\<close> at once (it does not reach its
  \<^verbatim>\<open>await\<close>) and leaves the host and the world as they were: nothing is hidden,
  nothing is instantiated, and the composites map is not touched.
\<close>

theorem openComposite_while_creating:
  assumes "compositeId \<in> creatingComposites h"
  shows "openComposite_begin ev compositeId h w = (Inr (Returned None), h, w)"
  using assms by (simp add: openComposite_begin_def)

theorem openComposite_while_creating_witness:
  "''workbench.view.explorer'' \<in> creatingComposites (ex_pending_host ''workbench.view.explorer'') \<and>
   openComposite_begin ex_env ''workbench.view.explorer''
     (ex_pending_host ''workbench.view.explorer'') (ex_pending_world ''workbench.view.explorer'') =
     (Inr (Returned None),
      ex_pending_host ''workbench.view.explorer'', ex_pending_world ''workbench.view.explorer'')"
proof -
  have c: "''workbench.view.explorer'' \<in> creatingComposites (ex_pending_host ''workbench.view.explorer'')"
    by (simp add: ex_explorer_pending)
  show ?thesis
    using c openComposite_while_creating [OF c] by simp
qed

text \<open>
  The calls \<^verbatim>\<open>layout\<close> makes, in every configuration a host can reach: one call,
  \<^verbatim>\<open>layout(dimension)\<close> on the composite of the current id's entry, when the current
  id is not the empty string and has an entry, and none otherwise; no call on the
  composite of any other entry, and no element or store changes.
\<close>

lemma layout_calls:
  assumes re: "reachable ev host_el (h, w, ps)" and la: "layout dimension h w = (r, w')"
  shows "new_calls w w' =
           (case currentCompositeId h of
              None \<Rightarrow> []
            | Some cur \<Rightarrow>
                if cur \<noteq> [] then
                  (case map_of (composites h) cur of
                     None \<Rightarrow> []
                   | Some e \<Rightarrow> [(oid (composite e), Layout dimension)])
                else []) \<and>
         (\<forall>k e c. map_of (composites h) k = Some e \<and> currentCompositeId h \<noteq> Some k \<longrightarrow>
            (oid (composite e), c) \<notin> set (new_calls w w')) \<and>
         elements w' = elements w \<and> stores w' = stores w"
proof -
  note D = host_invD [OF reachable_host_inv [OF re]]
  have 1: "new_calls w w' =
           (case currentCompositeId h of
              None \<Rightarrow> []
            | Some cur \<Rightarrow>
                if cur \<noteq> [] then
                  (case map_of (composites h) cur of
                     None \<Rightarrow> []
                   | Some e \<Rightarrow> [(oid (composite e), Layout dimension)])
                else [])"
    and 3: "elements w' = elements w \<and> stores w' = stores w"
    using la
    by (auto simp: layout_def invoke_def new_calls_def split: option.splits if_splits)
  have 2: "(oid (composite e), c) \<notin> set (new_calls w w')"
    if m: "map_of (composites h) k = Some e" and nk: "currentCompositeId h \<noteq> Some k" for k e c
  proof (cases "new_calls w w' = []")
    case True
    then show ?thesis by simp
  next
    case False
    then obtain cur ec where cur: "currentCompositeId h = Some cur"
      "map_of (composites h) cur = Some ec"
      "new_calls w w' = [(oid (composite ec), Layout dimension)]"
      using 1 by (auto split: option.splits if_splits)
    have "oid (composite e) \<noteq> oid (composite ec)"
      using entries_invD(3) [OF D(4) m cur(2)] nk cur(1) by auto
    then show ?thesis using cur(3) by simp
  qed
  show ?thesis using 1 2 3 by blast
qed


text \<open>
  Claim C10 (caller-chosen container). When a suspended \<^verbatim>\<open>openComposite\<close> resumes and
  returns a composite, that composite is the one that was instantiated, the map holds it
  under the id, and the element of its entry was created by this call, was passed to
  \<^verbatim>\<open>composite.create\<close>, and has as parent the element the host was constructed with.
\<close>

theorem created_composite_in_host_container:
  assumes re: "reachable ev host_el (h, w, ps1 @ (compositeId, Inr (Some c)) # ps2)"
    and rs: "openComposite_resume ev compositeId (Inr (Some c)) h w = (Inr (Some c'), h', w')"
  shows "c' = c \<and>
         (\<exists>e. map_of (composites h') compositeId = Some e \<and> composite e = c \<and>
            fresh w \<le> entry_container e \<and>
            (oid c, Create (entry_container e)) \<in> set (new_calls w w') \<and>
            parent_of w' (entry_container e) = Some host_el) \<and>
         container h' = host_el"
proof -
  note D = host_invD [OF reachable_host_inv [OF re]]
  note U = openComposite_resume_unfold [OF rs]
  obtain h1 where cs: "create_and_show ev compositeId c h w = (Inr (Some c'), h1, w')"
    and h': "h' = h1\<lparr>creatingComposites := creatingComposites h1 - {compositeId}\<rparr>"
    using U by auto
  define e where "e = \<lparr>composite = c, entry_container = Suc (fresh w), disposables = fresh w\<rparr>"
  note C = create_and_show_effect [OF cs, folded e_def]
  have 1: "c' = c" "composites h1 = AList.update compositeId e (composites h)"
    "parent_of w' (Suc (fresh w)) = Some (container h)" "container h1 = container h"
    using C by (auto split: if_splits)
  have 2: "(oid c, Create (Suc (fresh w))) \<in> set (new_calls w w')"
    using C by simp
  have "map_of (composites h') compositeId = Some e"
    by (simp add: h' 1(2) update_conv')
  then show ?thesis
    using 1 2 D(1) by (auto simp: e_def h')
qed

theorem created_composite_in_host_container_witness:
  "reachable ex_env 0
     (ex_pending_host ''workbench.view.explorer'', ex_pending_world ''workbench.view.explorer'',
      [] @ (''workbench.view.explorer'', Inr (Some \<lparr>oid = 1, faults = []\<rparr>)) # []) \<and>
   fst (openComposite_resume ex_env ''workbench.view.explorer''
          (Inr (Some \<lparr>oid = 1, faults = []\<rparr>))
          (ex_pending_host ''workbench.view.explorer'')
          (ex_pending_world ''workbench.view.explorer''))
     = Inr (Some \<lparr>oid = 1, faults = []\<rparr>) \<and>
   parent_of (snd (snd (openComposite_resume ex_env ''workbench.view.explorer''
          (Inr (Some \<lparr>oid = 1, faults = []\<rparr>))
          (ex_pending_host ''workbench.view.explorer'')
          (ex_pending_world ''workbench.view.explorer'')))) 3 = Some 0"
proof -
  let ?h = "ex_pending_host ''workbench.view.explorer''"
  let ?w = "ex_pending_world ''workbench.view.explorer''"
  let ?c = "\<lparr>oid = 1, faults = []\<rparr>"
  let ?r = "openComposite_resume ex_env ''workbench.view.explorer'' (Inr (Some ?c)) ?h ?w"
  have re: "reachable ex_env 0 (?h, ?w, [] @ (''workbench.view.explorer'', Inr (Some ?c)) # [])"
    using ex_reachable_pending [OF ex_explorer_pending(1)] by simp
  have r: "fst ?r = Inr (Some ?c)"
    by (simp add: ex_pending_host_def ex_pending_world_def ex_defs op_defs)
  have ec: "map_of (composites (fst (snd ?r))) ''workbench.view.explorer'' = Some (ex_entry [])"
    by (simp add: ex_pending_host_def ex_pending_world_def ex_defs op_defs)
  have eq: "?r = (Inr (Some ?c), fst (snd ?r), snd (snd ?r))"
    using r by (simp add: prod_eq_iff)
  note T = created_composite_in_host_container [OF re eq]
  then have "parent_of (snd (snd ?r)) (entry_container (ex_entry [])) = Some 0"
    using ec by auto
  then show ?thesis
    using re r by (simp add: ex_entry_def)
qed

section \<open>The concrete widget, evaluated\<close>

lemmas widget_defs = showViewlet_def prepare_content_def render_viewlet_def showPlaceholder_def
  set_innerHTML_def updateActiveButton_def displayed_containers_def
  getPinnedViewletIds_def storage_get_def find_container_def createActivityBar_def
  dispatch_def layout_def dispose_def

lemmas show_defs = Let_def showViewlet_def prepare_content_def render_viewlet_def showPlaceholder_def
  set_innerHTML_def updateActiveButton_def dispatch_def layout_def dispose_def

lemma ex_services_sel:
  "JSON_parse ex_services = ex_JSON_parse"
  "parseHTML ex_services = ex_parseHTML"
  "getViewContainersByLocation ex_services = (\<lambda>l. if l = Sidebar then ex_containers else [])"
  "getViewContainerById ex_services = (\<lambda>i. List.find (\<lambda>c. vc_id c = i) ex_containers)"
  "createInstance_throws ex_services = False"
  "host_env ex_services = ex_env"
  by (simp_all add: ex_services_def)

lemmas ex_widget_defs = ex_services_def ex_JSON_parse_def ex_pinned_text_def ex_containers_def
  ex_widget_world_def ex_widget_def ex_parseHTML_def

lemma ex_displayed:
  "displayed_containers ex_services [''workbench.activity.pinnedViewlets2'' \<mapsto> ex_pinned_text]
     = [\<lparr>vc_id = ''broken.constructor'', title = ''Broken''\<rparr>,
        \<lparr>vc_id = ''workbench.view.search'', title = ''Search''\<rparr>]"
  by (simp add: displayed_containers_def getPinnedViewletIds_def storage_get_def
      find_container_def ex_widget_defs List.map_filter_simps)

lemma ex_activity_bar:
  "fst (createActivityBar ex_services
      (ex_widget [''workbench.activity.pinnedViewlets2'' \<mapsto> ex_pinned_text]) ex_widget_world)
     = \<lparr>activityBarContainer = 1, contentContainer = 2, currentViewletId = None,
        embeddedHost = None,
        buttons =
          [\<lparr>button_element = 4, aria_label = ''Broken'', target = ''broken.constructor'',
            checked = False\<rparr>,
           \<lparr>button_element = 7, aria_label = ''Search'', target = ''workbench.view.search'',
            checked = False\<rparr>],
        storage = [''workbench.activity.pinnedViewlets2'' \<mapsto> ex_pinned_text], fired = 0\<rparr>"
  "fresh (snd (createActivityBar ex_services
      (ex_widget [''workbench.activity.pinnedViewlets2'' \<mapsto> ex_pinned_text]) ex_widget_world))
     = 10"
  "calls (snd (createActivityBar ex_services
      (ex_widget [''workbench.activity.pinnedViewlets2'' \<mapsto> ex_pinned_text]) ex_widget_world))
     = []"
  "stores (snd (createActivityBar ex_services
      (ex_widget [''workbench.activity.pinnedViewlets2'' \<mapsto> ex_pinned_text]) ex_widget_world))
     = Map.empty"
  "instantiations (snd (createActivityBar ex_services
      (ex_widget [''workbench.activity.pinnedViewlets2'' \<mapsto> ex_pinned_text]) ex_widget_world))
     = []"
  by (simp_all add: createActivityBar_def ex_displayed ex_widget_def ex_widget_world_def
      createElement_def update_element_def appendChild_def)

section \<open>The claims about MobileSidebarWidget\<close>

text \<open>
  Claim C4 (failure fallback to placeholder), as amended. Let \<^verbatim>\<open>showViewlet\<close> be
  called for an id that is not the current one and reach its \<^verbatim>\<open>try\<close> (the previous
  host is disposed before the \<^verbatim>\<open>try\<close>, and what that throws is not caught). If
  creating the embedded host throws, or \<^verbatim>\<open>openComposite\<close> throws or returns
  \<^verbatim>\<open>undefined\<close>, then \<^verbatim>\<open>showViewlet\<close> returns normally, with the wrapper it
  appended in the content container. If the view descriptor service knows a view
  container with that id, the wrapper holds the nodes of the placeholder markup with the
  title of that view container, and no element the program created is a child of it; if
  it knows none, the wrapper holds no markup. Nothing more is done: the id is now the
  current one, the change event is fired as after a success, and a further call for the
  same id returns at once without trying again.
\<close>

theorem showViewlet_failure_placeholder:
  assumes nc: "currentViewletId wd \<noteq> Some viewletId"
    and prep: "prepare_content sv viewletId wd w = (Inr wrapper, wd1, w1)"
    and fail: "createInstance_throws sv \<or>
       (case fst (openComposite (host_env sv) viewletId
                    (fst (new_EmbeddedCompositeHost wrapper Sidebar w1))
                    (snd (new_EmbeddedCompositeHost wrapper Sidebar w1))) of
          Inr (Some c) \<Rightarrow> False | _ \<Rightarrow> True)"
    and sh: "showViewlet sv viewletId wd w = (r, wd', w')"
  shows "r = Inr () \<and>
         parent_of w' wrapper = Some (contentContainer wd) \<and>
         (case getViewContainerById sv viewletId of
            Some viewContainer \<Rightarrow>
              childNodes_of w' wrapper
                = Some (parseHTML sv (placeholder_html (title viewContainer))) \<and>
              (\<forall>x. x \<noteq> wrapper \<longrightarrow> parent_of w' x \<noteq> Some wrapper)
          | None \<Rightarrow> childNodes_of w' wrapper = Some []) \<and>
         currentViewletId wd' = Some viewletId \<and>
         fired wd' = Suc (fired wd) \<and>
         showViewlet sv viewletId wd' w' = (Inr (), wd', w')"
proof -
  obtain wd2 w2 where rv: "render_viewlet sv viewletId wrapper wd1 w1 = (wd2, w2)"
    by fastforce
  note P = prepare_content_effect [OF prep]
  note F = render_viewlet_fields [OF rv]
  have res: "r = Inr ()" "w' = w2"
    "wd' = (updateActiveButton sv viewletId wd2)\<lparr>fired := Suc (fired wd2)\<rparr>"
    using sh showViewlet_unfold [OF nc prep rv] by simp_all
  from render_viewlet_failure [OF rv fail] P obtain w3 where
    w3: "w2 = showPlaceholder sv wrapper viewletId w3" "elements w3 wrapper \<noteq> None"
      "parent_of w3 wrapper = Some (contentContainer wd)"
      "childNodes_of w3 wrapper = Some []"
    by auto
  have cur: "currentViewletId wd' = Some viewletId"
    using res(3) F P by simp
  have pa: "parent_of w' wrapper = Some (contentContainer wd)"
  proof (cases "getViewContainerById sv viewletId")
    case None
    then show ?thesis using w3 res(2) by (simp add: showPlaceholder_unknown)
  next
    case (Some vc)
    show ?thesis
      unfolding res(2) w3(1) using showPlaceholder_effect(2) [OF Some w3(2)] w3(3) by simp
  qed
  have ch: "case getViewContainerById sv viewletId of
            Some viewContainer \<Rightarrow>
              childNodes_of w' wrapper
                = Some (parseHTML sv (placeholder_html (title viewContainer))) \<and>
              (\<forall>x. x \<noteq> wrapper \<longrightarrow> parent_of w' x \<noteq> Some wrapper)
          | None \<Rightarrow> childNodes_of w' wrapper = Some []"
  proof (cases "getViewContainerById sv viewletId")
    case None
    then show ?thesis using w3 res(2) by (simp add: showPlaceholder_unknown)
  next
    case (Some vc)
    have "childNodes_of w' wrapper = Some (parseHTML sv (placeholder_html (title vc)))"
      unfolding res(2) w3(1) using Some w3(2) by (rule showPlaceholder_effect(1))
    moreover have "\<forall>x. x \<noteq> wrapper \<longrightarrow> parent_of w' x \<noteq> Some wrapper"
      unfolding res(2) w3(1) using showPlaceholder_effect(3) [OF Some w3(2)] by blast
    ultimately show ?thesis using Some by simp
  qed
  have "fired wd' = Suc (fired wd)"
    using res(3) F P by simp
  moreover have "showViewlet sv viewletId wd' w' = (Inr (), wd', w')"
    using cur by (simp add: showViewlet_def)
  ultimately show ?thesis using res(1) cur pa ch by blast
qed

theorem showViewlet_failure_placeholder_witness:
  "currentViewletId (ex_widget Map.empty) \<noteq> Some ''broken.constructor'' \<and>
   fst (prepare_content ex_services ''broken.constructor'' (ex_widget Map.empty) ex_widget_world)
     = Inr 3 \<and>
   fst (openComposite (host_env ex_services) ''broken.constructor''
          (fst (new_EmbeddedCompositeHost 3 Sidebar
             (snd (snd (prepare_content ex_services ''broken.constructor''
                (ex_widget Map.empty) ex_widget_world)))))
          (snd (new_EmbeddedCompositeHost 3 Sidebar
             (snd (snd (prepare_content ex_services ''broken.constructor''
                (ex_widget Map.empty) ex_widget_world)))))) = Inr None \<and>
   getViewContainerById ex_services ''broken.constructor''
     = Some \<lparr>vc_id = ''broken.constructor'', title = ''Broken''\<rparr> \<and>
   parseHTML ex_services (placeholder_html ''Broken'') = ex_placeholder_nodes \<and>
   fst (showViewlet ex_services ''broken.constructor'' (ex_widget Map.empty) ex_widget_world)
     = Inr () \<and>
   childNodes_of
     (snd (snd (showViewlet ex_services ''broken.constructor'' (ex_widget Map.empty)
        ex_widget_world))) 3 = Some ex_placeholder_nodes \<and>
   parent_of
     (snd (snd (showViewlet ex_services ''broken.constructor'' (ex_widget Map.empty)
        ex_widget_world))) 3 = Some 2 \<and>
   currentViewletId
     (fst (snd (showViewlet ex_services ''broken.constructor'' (ex_widget Map.empty)
        ex_widget_world))) = Some ''broken.constructor''"
proof -
  let ?k = "''broken.constructor''"
  let ?wd = "ex_widget Map.empty"
  let ?p = "prepare_content ex_services ?k ?wd ex_widget_world"
  let ?s = "showViewlet ex_services ?k ?wd ex_widget_world"
  have nc: "currentViewletId ?wd \<noteq> Some ?k" by (simp add: ex_widget_def)
  have p1: "fst ?p = Inr 3"
    by (simp add: prepare_content_def ex_widget_defs createElement_def set_innerHTML_def)
  then have prep: "?p = (Inr 3, fst (snd ?p), snd (snd ?p))"
    by (metis prod.collapse)
  have op: "fst (openComposite (host_env ex_services) ?k
          (fst (new_EmbeddedCompositeHost 3 Sidebar (snd (snd ?p))))
          (snd (new_EmbeddedCompositeHost 3 Sidebar (snd (snd ?p))))) = Inr None"
    by (simp add: widget_defs ex_widget_defs ex_defs op_defs)
  have vc: "getViewContainerById ex_services ?k = Some \<lparr>vc_id = ?k, title = ''Broken''\<rparr>"
    by (simp add: ex_services_def ex_containers_def)
  have ph: "parseHTML ex_services (placeholder_html ''Broken'') = ex_placeholder_nodes"
    by (simp add: ex_services_def ex_parseHTML_def)
  have fail: "createInstance_throws ex_services \<or>
       (case fst (openComposite (host_env ex_services) ?k
                    (fst (new_EmbeddedCompositeHost 3 Sidebar (snd (snd ?p))))
                    (snd (new_EmbeddedCompositeHost 3 Sidebar (snd (snd ?p))))) of
          Inr (Some c) \<Rightarrow> False | _ \<Rightarrow> True)"
    unfolding op by simp
  have sh: "?s = (fst ?s, fst (snd ?s), snd (snd ?s))" by simp
  have cc: "contentContainer ?wd = 2" by (simp add: ex_widget_def)
  note T = showViewlet_failure_placeholder [OF nc prep fail sh]
  then have "fst ?s = Inr () \<and> childNodes_of (snd (snd ?s)) 3 = Some ex_placeholder_nodes \<and>
      parent_of (snd (snd ?s)) 3 = Some 2 \<and> currentViewletId (fst (snd ?s)) = Some ?k"
    using cc vc ph by simp
  then show ?thesis using nc p1 op vc ph by simp
qed

text \<open>
  The claim as stated fails for an id that no view container has: \<^verbatim>\<open>showPlaceholder\<close>
  tests \<^verbatim>\<open>if (viewContainer)\<close> (line 259) and writes nothing otherwise. The widget makes
  such a call itself: with no valid last active viewlet, \<^verbatim>\<open>restoreLastActiveViewlet\<close>
  shows the first pinned id (line 94), whether or not a view container has it. Below, the
  stored list of pinned ids starts with \<^verbatim>\<open>workbench.view.scm\<close>, which neither the
  registry nor the view descriptor service knows: \<^verbatim>\<open>openComposite\<close> returns
  \<^verbatim>\<open>undefined\<close>, \<^verbatim>\<open>showViewlet\<close> returns normally, and the wrapper in the
  content container stays empty.
\<close>

theorem unknown_view_container_leaves_wrapper_empty:
  "hd (getPinnedViewletIds ex_services [''workbench.activity.pinnedViewlets2'' \<mapsto> ex_pinned_text])
     = JString ''workbench.view.scm'' \<and>
   currentViewletId (ex_widget [''workbench.activity.pinnedViewlets2'' \<mapsto> ex_pinned_text])
     \<noteq> Some ''workbench.view.scm'' \<and>
   getViewContainerById ex_services ''workbench.view.scm'' = None \<and>
   fst (prepare_content ex_services ''workbench.view.scm''
          (ex_widget [''workbench.activity.pinnedViewlets2'' \<mapsto> ex_pinned_text])
          ex_widget_world) = Inr 3 \<and>
   fst (openComposite (host_env ex_services) ''workbench.view.scm''
          (fst (new_EmbeddedCompositeHost 3 Sidebar
             (snd (snd (prepare_content ex_services ''workbench.view.scm''
                (ex_widget [''workbench.activity.pinnedViewlets2'' \<mapsto> ex_pinned_text])
                ex_widget_world)))))
          (snd (new_EmbeddedCompositeHost 3 Sidebar
             (snd (snd (prepare_content ex_services ''workbench.view.scm''
                (ex_widget [''workbench.activity.pinnedViewlets2'' \<mapsto> ex_pinned_text])
                ex_widget_world)))))) = Inr None \<and>
   fst (showViewlet ex_services ''workbench.view.scm''
          (ex_widget [''workbench.activity.pinnedViewlets2'' \<mapsto> ex_pinned_text])
          ex_widget_world) = Inr () \<and>
   parent_of
     (snd (snd (showViewlet ex_services ''workbench.view.scm''
        (ex_widget [''workbench.activity.pinnedViewlets2'' \<mapsto> ex_pinned_text])
        ex_widget_world))) 3 = Some 2 \<and>
   childNodes_of
     (snd (snd (showViewlet ex_services ''workbench.view.scm''
        (ex_widget [''workbench.activity.pinnedViewlets2'' \<mapsto> ex_pinned_text])
        ex_widget_world))) 3 = Some []"
  by (simp add: widget_defs ex_widget_defs ex_defs op_defs List.map_filter_simps)

text \<open>
  Claim C8 (icon-button switching), as amended. \<^verbatim>\<open>createActivityBar\<close> adds one button
  per displayed view container, in order: the targets of the new buttons are the ids of
  the displayed containers and their labels the titles; the buttons are distinct
  elements, children of the new action bar, which is a child of the activity bar
  container. The displayed containers are, when some pinned id is the id of an available
  sidebar container, the containers found for the pinned ids, in pinned order (pinned
  ids without a container are skipped), and otherwise all available sidebar containers.
  A click, or a key press of Enter or of the space bar, on a button calls
  \<^verbatim>\<open>showViewlet\<close> with the id of the button's container. When that id is not the
  current one, the previous host is disposed without an exception, creating the new host
  does not throw, and the viewlet registry has a descriptor for the id whose composite
  is instantiated and throws from none of \<^verbatim>\<open>create\<close>, \<^verbatim>\<open>updateStyles\<close>,
  \<^verbatim>\<open>setVisible(true)\<close> and \<^verbatim>\<open>layout\<close>, the container's viewlet is shown: the id
  is the current one, the new host holds the composite as its current one, the
  composite's element was passed to \<^verbatim>\<open>create\<close>, is displayed and is a child of the
  new wrapper in the content container, and \<^verbatim>\<open>setVisible(true)\<close> was called.
\<close>

theorem activity_bar_buttons:
  assumes "createActivityBar sv wd w = (wd', w')"
  shows "(\<exists>bs. buttons wd' = buttons wd @ bs \<and>
            map target bs = map vc_id (displayed_containers sv (storage wd)) \<and>
            map aria_label bs = map title (displayed_containers sv (storage wd)) \<and>
            distinct (map button_element bs) \<and>
            (\<forall>b\<in>set bs. parent_of w' (button_element b) = Some (fresh w)) \<and>
            parent_of w' (fresh w) = Some (activityBarContainer wd)) \<and>
         (if \<exists>v\<in>set (getPinnedViewletIds sv (storage wd)).
               \<exists>c\<in>set (getViewContainersByLocation sv Sidebar). JString (vc_id c) = v
          then map (\<lambda>c. JString (vc_id c)) (displayed_containers sv (storage wd)) =
                 filter (\<lambda>v. \<exists>c\<in>set (getViewContainersByLocation sv Sidebar).
                               JString (vc_id c) = v)
                   (getPinnedViewletIds sv (storage wd)) \<and>
               set (displayed_containers sv (storage wd))
                 \<subseteq> set (getViewContainersByLocation sv Sidebar)
          else displayed_containers sv (storage wd) = getViewContainersByLocation sv Sidebar) \<and>
         activates Click \<and> activates (KeyDown ''Enter'') \<and> activates (KeyDown '' '') \<and>
         (activates e \<longrightarrow> dispatch sv b e wd0 w0 = showViewlet sv (target b) wd0 w0) \<and>
         (activates e \<and> currentViewletId wd0 \<noteq> Some (target b) \<and>
          prepare_content sv (target b) wd0 w0 = (Inr wrapper, wd1, w1) \<and>
          \<not> createInstance_throws sv \<and>
          registry_as (host_env sv) Viewlets = Some registry \<and>
          registry (target b) = Some descriptor \<and>
          instantiate descriptor = InstantiateOk fs \<and>
          (\<forall>x. Create x \<notin> set fs) \<and> UpdateStyles \<notin> set fs \<and> SetVisible True \<notin> set fs \<and>
          (\<forall>dm. Layout dm \<notin> set fs) \<and>
          dispatch sv b e wd0 w0 = (r, wd2, w2) \<longrightarrow>
            r = Inr () \<and> currentViewletId wd2 = Some (target b) \<and>
            parent_of w2 wrapper = Some (contentContainer wd0) \<and>
            (\<exists>en. embeddedHost wd2 =
                     Some \<lparr>composites = [(target b, en)], currentCompositeId = Some (target b),
                           creatingComposites = {}, container = wrapper, location = Sidebar\<rparr> \<and>
                   faults (composite en) = fs \<and>
                   parent_of w2 (entry_container en) = Some wrapper \<and>
                   display_of w2 (entry_container en) = Some ''block'' \<and>
                   (oid (composite en), Create (entry_container en)) \<in> set (new_calls w0 w2) \<and>
                   (oid (composite en), SetVisible True) \<in> set (new_calls w0 w2) \<and>
                   \<not> store_isDisposed w2 (disposables en)))"
proof -
  let ?cs = "displayed_containers sv (storage wd)"
  let ?bar = "fresh w"
  define wa where "wa = appendChild (activityBarContainer wd) ?bar
     (update_element ?bar
        (\<lambda>e. e\<lparr>classList := [''mobile-activity-actions''], style_display := ''flex''\<rparr>)
        (snd (createElement w)))"
  obtain bs where ab: "add_buttons ?bar ?cs wa = (bs, w')" and wd': "wd' = wd\<lparr>buttons := buttons wd @ bs\<rparr>"
    using assms by (auto simp: createActivityBar_def wa_def createElement_def split: prod.splits)
  note E = add_buttons_effect [OF ab]
  have fa: "fresh wa = Suc ?bar"
    by (simp add: wa_def createElement_def update_element_def appendChild_def)
  have pa: "parent_of wa ?bar = Some (activityBarContainer wd)"
    by (simp add: wa_def createElement_def update_element_def appendChild_def parent_of_def)
  have "parent_of w' ?bar = Some (activityBarContainer wd)"
    using E pa by (simp add: keeps_below_def fa)
  then have 1: "\<exists>bs. buttons wd' = buttons wd @ bs \<and>
            map target bs = map vc_id ?cs \<and> map aria_label bs = map title ?cs \<and>
            distinct (map button_element bs) \<and>
            (\<forall>b\<in>set bs. parent_of w' (button_element b) = Some ?bar) \<and>
            parent_of w' ?bar = Some (activityBarContainer wd)"
    using E wd' by auto
  let ?all = "getViewContainersByLocation sv Sidebar"
  let ?pinned = "getPinnedViewletIds sv (storage wd)"
  let ?found = "List.map_filter (find_container ?all) ?pinned"
  have ne: "?found \<noteq> [] \<longleftrightarrow> (\<exists>v\<in>set ?pinned. \<exists>c\<in>set ?all. JString (vc_id c) = v)"
  proof -
    have "?found \<noteq> [] \<longleftrightarrow> map (\<lambda>c. JString (vc_id c)) ?found \<noteq> []" by simp
    also have "\<dots> \<longleftrightarrow> (\<exists>v\<in>set ?pinned. \<exists>c\<in>set ?all. JString (vc_id c) = v)"
      unfolding map_filter_find_container by (simp add: filter_empty_conv)
    finally show ?thesis .
  qed
  have 2: "if \<exists>v\<in>set ?pinned. \<exists>c\<in>set ?all. JString (vc_id c) = v
          then map (\<lambda>c. JString (vc_id c)) ?cs =
                 filter (\<lambda>v. \<exists>c\<in>set ?all. JString (vc_id c) = v) ?pinned \<and>
               set ?cs \<subseteq> set ?all
          else ?cs = ?all"
  proof (cases "?found = []")
    case True
    then show ?thesis using ne by (simp add: displayed_containers_def)
  next
    case False
    then have "?cs = ?found" by (simp add: displayed_containers_def)
    then show ?thesis
      using False ne map_filter_find_container [of ?all ?pinned]
        map_filter_find_container_set [of ?all ?pinned]
      by simp
  qed
  have 3: "activates e \<longrightarrow> dispatch sv b e wd0 w0 = showViewlet sv (target b) wd0 w0"
    by (simp add: dispatch_def)
  have 4: "r = Inr () \<and> currentViewletId wd2 = Some (target b) \<and>
            parent_of w2 wrapper = Some (contentContainer wd0) \<and>
            (\<exists>en. embeddedHost wd2 =
                     Some \<lparr>composites = [(target b, en)], currentCompositeId = Some (target b),
                           creatingComposites = {}, container = wrapper, location = Sidebar\<rparr> \<and>
                   faults (composite en) = fs \<and>
                   parent_of w2 (entry_container en) = Some wrapper \<and>
                   display_of w2 (entry_container en) = Some ''block'' \<and>
                   (oid (composite en), Create (entry_container en)) \<in> set (new_calls w0 w2) \<and>
                   (oid (composite en), SetVisible True) \<in> set (new_calls w0 w2) \<and>
                   \<not> store_isDisposed w2 (disposables en))"
    if ac: "activates e" and nc: "currentViewletId wd0 \<noteq> Some (target b)"
      and prep: "prepare_content sv (target b) wd0 w0 = (Inr wrapper, wd1, w1)"
      and ci: "\<not> createInstance_throws sv"
      and reg: "registry_as (host_env sv) Viewlets = Some registry"
        "registry (target b) = Some descriptor" "instantiate descriptor = InstantiateOk fs"
      and nf: "\<forall>x. Create x \<notin> set fs" "UpdateStyles \<notin> set fs" "SetVisible True \<notin> set fs"
        "\<forall>dm. Layout dm \<notin> set fs"
      and di: "dispatch sv b e wd0 w0 = (r, wd2, w2)"
  proof -
    obtain wd3 w3 where rv: "render_viewlet sv (target b) wrapper wd1 w1 = (wd3, w3)"
      by fastforce
    note P = prepare_content_effect [OF prep]
    note F = render_viewlet_fields [OF rv]
    note S = render_viewlet_success [OF rv ci reg nf]
    have res: "r = Inr ()" "w2 = w3"
      "wd2 = (updateActiveButton sv (target b) wd3)\<lparr>fired := Suc (fired wd3)\<rparr>"
      using di ac showViewlet_unfold [OF nc prep rv] by (simp_all add: dispatch_def)
    define en where "en = \<lparr>composite = \<lparr>oid = fresh w1, faults = fs\<rparr>,
        entry_container = Suc (Suc (fresh w1)), disposables = Suc (fresh w1)\<rparr>"
    have kb: "keeps_below (fresh w1) w1 w3" using S by simp
    have c01: "\<exists>cs. calls w1 = calls w0 @ cs" using prepare_content_calls [OF prep] .
    have c13: "\<exists>cs. calls w3 = calls w1 @ cs" using kb by (simp add: keeps_below_def)
    have "parent_of w3 wrapper = Some (contentContainer wd0)"
      using kb P by (simp add: keeps_below_def)
    moreover have "currentViewletId wd2 = Some (target b)"
      using res(3) F P by simp
    moreover have "embeddedHost wd2 =
        Some \<lparr>composites = [(target b, en)], currentCompositeId = Some (target b),
              creatingComposites = {}, container = wrapper, location = Sidebar\<rparr>"
      using S by (simp add: res(3) en_def)
    moreover have "parent_of w3 (entry_container en) = Some wrapper"
      "display_of w3 (entry_container en) = Some ''block''"
      "\<not> store_isDisposed w3 (disposables en)"
      using S by (simp_all add: en_def store_isDisposed_def)
    moreover have "(oid (composite en), Create (entry_container en)) \<in> set (new_calls w0 w3)"
      "(oid (composite en), SetVisible True) \<in> set (new_calls w0 w3)"
      using S new_calls_right [OF c01 c13] by (simp_all add: en_def)
    moreover have "faults (composite en) = fs" by (simp add: en_def)
    ultimately show ?thesis using res(1,2) by blast
  qed
  have 5: "activates Click" "activates (KeyDown ''Enter'')" "activates (KeyDown '' '')"
    by simp_all
  have 6: "activates e \<and> currentViewletId wd0 \<noteq> Some (target b) \<and>
          prepare_content sv (target b) wd0 w0 = (Inr wrapper, wd1, w1) \<and>
          \<not> createInstance_throws sv \<and>
          registry_as (host_env sv) Viewlets = Some registry \<and>
          registry (target b) = Some descriptor \<and>
          instantiate descriptor = InstantiateOk fs \<and>
          (\<forall>x. Create x \<notin> set fs) \<and> UpdateStyles \<notin> set fs \<and> SetVisible True \<notin> set fs \<and>
          (\<forall>dm. Layout dm \<notin> set fs) \<and>
          dispatch sv b e wd0 w0 = (r, wd2, w2) \<longrightarrow>
            r = Inr () \<and> currentViewletId wd2 = Some (target b) \<and>
            parent_of w2 wrapper = Some (contentContainer wd0) \<and>
            (\<exists>en. embeddedHost wd2 =
                     Some \<lparr>composites = [(target b, en)], currentCompositeId = Some (target b),
                           creatingComposites = {}, container = wrapper, location = Sidebar\<rparr> \<and>
                   faults (composite en) = fs \<and>
                   parent_of w2 (entry_container en) = Some wrapper \<and>
                   display_of w2 (entry_container en) = Some ''block'' \<and>
                   (oid (composite en), Create (entry_container en)) \<in> set (new_calls w0 w2) \<and>
                   (oid (composite en), SetVisible True) \<in> set (new_calls w0 w2) \<and>
                   \<not> store_isDisposed w2 (disposables en))"
    by (intro impI, elim conjE, rule 4)
  show ?thesis
    using 1 2 5 3 6 by - (intro conjI; assumption)
qed

theorem activity_bar_buttons_witness:
  "buttons (fst (createActivityBar ex_services
      (ex_widget [''workbench.activity.pinnedViewlets2'' \<mapsto> ex_pinned_text]) ex_widget_world))
     = [\<lparr>button_element = 4, aria_label = ''Broken'', target = ''broken.constructor'',
         checked = False\<rparr>,
        \<lparr>button_element = 7, aria_label = ''Search'', target = ''workbench.view.search'',
         checked = False\<rparr>] \<and>
   parent_of (snd (createActivityBar ex_services
      (ex_widget [''workbench.activity.pinnedViewlets2'' \<mapsto> ex_pinned_text]) ex_widget_world)) 4
     = Some 3 \<and>
   parent_of (snd (createActivityBar ex_services
      (ex_widget [''workbench.activity.pinnedViewlets2'' \<mapsto> ex_pinned_text]) ex_widget_world)) 7
     = Some 3 \<and>
   parent_of (snd (createActivityBar ex_services
      (ex_widget [''workbench.activity.pinnedViewlets2'' \<mapsto> ex_pinned_text]) ex_widget_world)) 3
     = Some 1 \<and>
   activates (KeyDown ''Enter'') \<and>
   registry_as (host_env ex_services) Viewlets = Some ex_registry \<and>
   ex_registry ''workbench.view.search''
     = Some \<lparr>descriptor_id = ''workbench.view.search'', instantiate = InstantiateOk []\<rparr> \<and>
   fst (prepare_content ex_services ''workbench.view.search''
      (fst (createActivityBar ex_services
         (ex_widget [''workbench.activity.pinnedViewlets2'' \<mapsto> ex_pinned_text])
         ex_widget_world))
      (snd (createActivityBar ex_services
         (ex_widget [''workbench.activity.pinnedViewlets2'' \<mapsto> ex_pinned_text])
         ex_widget_world))) = Inr 10 \<and>
   fst (dispatch ex_services
      \<lparr>button_element = 7, aria_label = ''Search'', target = ''workbench.view.search'',
        checked = False\<rparr> (KeyDown ''Enter'')
      (fst (createActivityBar ex_services
         (ex_widget [''workbench.activity.pinnedViewlets2'' \<mapsto> ex_pinned_text])
         ex_widget_world))
      (snd (createActivityBar ex_services
         (ex_widget [''workbench.activity.pinnedViewlets2'' \<mapsto> ex_pinned_text])
         ex_widget_world)))
     = Inr () \<and>
   currentViewletId (fst (snd (dispatch ex_services
      \<lparr>button_element = 7, aria_label = ''Search'', target = ''workbench.view.search'',
        checked = False\<rparr> (KeyDown ''Enter'')
      (fst (createActivityBar ex_services
         (ex_widget [''workbench.activity.pinnedViewlets2'' \<mapsto> ex_pinned_text])
         ex_widget_world))
      (snd (createActivityBar ex_services
         (ex_widget [''workbench.activity.pinnedViewlets2'' \<mapsto> ex_pinned_text])
         ex_widget_world)))))
     = Some ''workbench.view.search'' \<and>
   embeddedHost (fst (snd (dispatch ex_services
      \<lparr>button_element = 7, aria_label = ''Search'', target = ''workbench.view.search'',
        checked = False\<rparr> (KeyDown ''Enter'')
      (fst (createActivityBar ex_services
         (ex_widget [''workbench.activity.pinnedViewlets2'' \<mapsto> ex_pinned_text])
         ex_widget_world))
      (snd (createActivityBar ex_services
         (ex_widget [''workbench.activity.pinnedViewlets2'' \<mapsto> ex_pinned_text])
         ex_widget_world)))))
     = Some \<lparr>composites =
               [(''workbench.view.search'',
                 \<lparr>composite = \<lparr>oid = 11, faults = []\<rparr>, entry_container = 13,
                  disposables = 12\<rparr>)],
             currentCompositeId = Some ''workbench.view.search'', creatingComposites = {},
             container = 10, location = Sidebar\<rparr> \<and>
   parent_of (snd (snd (dispatch ex_services
      \<lparr>button_element = 7, aria_label = ''Search'', target = ''workbench.view.search'',
        checked = False\<rparr> (KeyDown ''Enter'')
      (fst (createActivityBar ex_services
         (ex_widget [''workbench.activity.pinnedViewlets2'' \<mapsto> ex_pinned_text])
         ex_widget_world))
      (snd (createActivityBar ex_services
         (ex_widget [''workbench.activity.pinnedViewlets2'' \<mapsto> ex_pinned_text])
         ex_widget_world))))) 13 = Some 10 \<and>
   parent_of (snd (snd (dispatch ex_services
      \<lparr>button_element = 7, aria_label = ''Search'', target = ''workbench.view.search'',
        checked = False\<rparr> (KeyDown ''Enter'')
      (fst (createActivityBar ex_services
         (ex_widget [''workbench.activity.pinnedViewlets2'' \<mapsto> ex_pinned_text])
         ex_widget_world))
      (snd (createActivityBar ex_services
         (ex_widget [''workbench.activity.pinnedViewlets2'' \<mapsto> ex_pinned_text])
         ex_widget_world))))) 10 = Some 2 \<and>
   display_of (snd (snd (dispatch ex_services
      \<lparr>button_element = 7, aria_label = ''Search'', target = ''workbench.view.search'',
        checked = False\<rparr> (KeyDown ''Enter'')
      (fst (createActivityBar ex_services
         (ex_widget [''workbench.activity.pinnedViewlets2'' \<mapsto> ex_pinned_text])
         ex_widget_world))
      (snd (createActivityBar ex_services
         (ex_widget [''workbench.activity.pinnedViewlets2'' \<mapsto> ex_pinned_text])
         ex_widget_world))))) 13 = Some ''block''"
proof -
  let ?st = "[''workbench.activity.pinnedViewlets2'' \<mapsto> ex_pinned_text]"
  let ?wd = "ex_widget ?st"
  let ?r = "createActivityBar ex_services ?wd ex_widget_world"
  let ?bB = "\<lparr>button_element = 4, aria_label = ''Broken'', target = ''broken.constructor'',
        checked = False\<rparr>"
  let ?bS = "\<lparr>button_element = 7, aria_label = ''Search'', target = ''workbench.view.search'',
        checked = False\<rparr>"
  let ?k = "''workbench.view.search''"
  let ?p = "prepare_content ex_services ?k (fst ?r) (snd ?r)"
  let ?d = "dispatch ex_services ?bS (KeyDown ''Enter'') (fst ?r) (snd ?r)"
  let ?e = "\<lparr>composite = \<lparr>oid = 11, faults = []\<rparr>, entry_container = 13, disposables = 12\<rparr>"
  have eq: "?r = (fst ?r, snd ?r)" by simp
  have bs: "buttons (fst ?r) = [?bB, ?bS]" by (simp add: ex_activity_bar)
  have fr: "fresh ex_widget_world = 3" "storage ?wd = ?st" "activityBarContainer ?wd = 1"
    "buttons ?wd = []"
    by (simp_all add: ex_widget_def ex_widget_world_def)
  have ac: "activates (KeyDown ''Enter'')" by simp
  have nc: "currentViewletId (fst ?r) \<noteq> Some (target ?bS)" by (simp add: ex_activity_bar)
  have p1: "fst ?p = Inr 10"
    by (simp add: prepare_content_def ex_activity_bar createElement_def set_innerHTML_def)
  then have prep: "prepare_content ex_services (target ?bS) (fst ?r) (snd ?r)
      = (Inr 10, fst (snd ?p), snd (snd ?p))"
    by (simp add: prod_eq_iff)
  have ci: "\<not> createInstance_throws ex_services" by (simp add: ex_services_def)
  have reg: "registry_as (host_env ex_services) Viewlets = Some ex_registry"
    by (simp add: ex_services_def ex_env_def)
  have de: "ex_registry (target ?bS)
      = Some \<lparr>descriptor_id = ?k, instantiate = InstantiateOk []\<rparr>"
    by (simp add: ex_registry_def)
  have ins: "instantiate \<lparr>descriptor_id = ?k, instantiate = InstantiateOk []\<rparr> = InstantiateOk []"
    by simp
  have dd: "?d = (fst ?d, fst (snd ?d), snd (snd ?d))" by simp
  have cc: "contentContainer (fst ?r) = 2" by (simp add: ex_activity_bar)
  note T = activity_bar_buttons [OF eq, where ?e = "KeyDown ''Enter''" and ?b = ?bS
      and ?wd0.0 = "fst ?r" and ?w0.0 = "snd ?r" and ?wrapper = 10 and ?wd1.0 = "fst (snd ?p)"
      and ?w1.0 = "snd (snd ?p)" and ?registry = ex_registry
      and ?descriptor = "\<lparr>descriptor_id = ?k, instantiate = InstantiateOk []\<rparr>"
      and ?fs = "[]" and ?r = "fst ?d" and ?wd2.0 = "fst (snd ?d)" and ?w2.0 = "snd (snd ?d)"]
  from T obtain bs where b: "buttons (fst ?r) = buttons ?wd @ bs"
      "\<forall>b\<in>set bs. parent_of (snd ?r) (button_element b) = Some (fresh ex_widget_world)"
      "parent_of (snd ?r) (fresh ex_widget_world) = Some (activityBarContainer ?wd)"
    by blast
  have "bs = [?bB, ?bS]" using b(1) bs fr(4) by simp
  then have pa: "parent_of (snd ?r) 4 = Some 3" "parent_of (snd ?r) 7 = Some 3"
    "parent_of (snd ?r) 3 = Some 1"
    using b(2,3) fr by simp_all
  have hyp: "activates (KeyDown ''Enter'') \<and> currentViewletId (fst ?r) \<noteq> Some (target ?bS) \<and>
      prepare_content ex_services (target ?bS) (fst ?r) (snd ?r)
        = (Inr 10, fst (snd ?p), snd (snd ?p)) \<and>
      \<not> createInstance_throws ex_services \<and>
      registry_as (host_env ex_services) Viewlets = Some ex_registry \<and>
      ex_registry (target ?bS) = Some \<lparr>descriptor_id = ?k, instantiate = InstantiateOk []\<rparr> \<and>
      instantiate \<lparr>descriptor_id = ?k, instantiate = InstantiateOk []\<rparr> = InstantiateOk [] \<and>
      (\<forall>x. Create x \<notin> set []) \<and> UpdateStyles \<notin> set [] \<and> SetVisible True \<notin> set [] \<and>
      (\<forall>dm. Layout dm \<notin> set []) \<and>
      ?d = (fst ?d, fst (snd ?d), snd (snd ?d))"
    using ac nc prep ci reg de ins by simp
  have eh: "embeddedHost (fst (snd ?d)) =
      Some \<lparr>composites = [(?k, ?e)], currentCompositeId = Some ?k, creatingComposites = {},
            container = 10, location = Sidebar\<rparr>"
    by (simp add: show_defs ex_activity_bar ex_displayed ex_services_sel ex_defs op_defs)
  from T have imp: "activates (KeyDown ''Enter'') \<and> currentViewletId (fst ?r) \<noteq> Some (target ?bS) \<and>
      prepare_content ex_services (target ?bS) (fst ?r) (snd ?r)
        = (Inr 10, fst (snd ?p), snd (snd ?p)) \<and>
      \<not> createInstance_throws ex_services \<and>
      registry_as (host_env ex_services) Viewlets = Some ex_registry \<and>
      ex_registry (target ?bS) = Some \<lparr>descriptor_id = ?k, instantiate = InstantiateOk []\<rparr> \<and>
      instantiate \<lparr>descriptor_id = ?k, instantiate = InstantiateOk []\<rparr> = InstantiateOk [] \<and>
      (\<forall>x. Create x \<notin> set []) \<and> UpdateStyles \<notin> set [] \<and> SetVisible True \<notin> set [] \<and>
      (\<forall>dm. Layout dm \<notin> set []) \<and>
      ?d = (fst ?d, fst (snd ?d), snd (snd ?d)) \<longrightarrow>
        fst ?d = Inr () \<and> currentViewletId (fst (snd ?d)) = Some (target ?bS) \<and>
        parent_of (snd (snd ?d)) 10 = Some (contentContainer (fst ?r)) \<and>
        (\<exists>en. embeddedHost (fst (snd ?d)) =
                 Some \<lparr>composites = [(target ?bS, en)], currentCompositeId = Some (target ?bS),
                       creatingComposites = {}, container = 10, location = Sidebar\<rparr> \<and>
               faults (composite en) = [] \<and>
               parent_of (snd (snd ?d)) (entry_container en) = Some 10 \<and>
               display_of (snd (snd ?d)) (entry_container en) = Some ''block'' \<and>
               (oid (composite en), Create (entry_container en))
                 \<in> set (new_calls (snd ?r) (snd (snd ?d))) \<and>
               (oid (composite en), SetVisible True)
                 \<in> set (new_calls (snd ?r) (snd (snd ?d))) \<and>
               \<not> store_isDisposed (snd (snd ?d)) (disposables en))"
    by (elim conjE)
  from imp hyp have res: "fst ?d = Inr ()" "currentViewletId (fst (snd ?d)) = Some (target ?bS)"
    "parent_of (snd (snd ?d)) 10 = Some (contentContainer (fst ?r))"
    and "\<exists>en. embeddedHost (fst (snd ?d)) =
                 Some \<lparr>composites = [(target ?bS, en)], currentCompositeId = Some (target ?bS),
                       creatingComposites = {}, container = 10, location = Sidebar\<rparr> \<and>
               parent_of (snd (snd ?d)) (entry_container en) = Some 10 \<and>
               display_of (snd (snd ?d)) (entry_container en) = Some ''block''"
    by blast+
  then obtain en where en: "embeddedHost (fst (snd ?d)) =
                 Some \<lparr>composites = [(target ?bS, en)], currentCompositeId = Some (target ?bS),
                       creatingComposites = {}, container = 10, location = Sidebar\<rparr>"
      "parent_of (snd (snd ?d)) (entry_container en) = Some 10"
      "display_of (snd (snd ?d)) (entry_container en) = Some ''block''"
    by blast
  have "en = ?e" using en(1) eh by simp
  then have sh: "parent_of (snd (snd ?d)) 13 = Some 10"
    "display_of (snd (snd ?d)) 13 = Some ''block''"
    using en(2,3) by simp_all
  show ?thesis
    using bs pa ac reg de p1 res cc eh sh by simp
qed

text \<open>
  The claim as stated fails for a button whose viewlet cannot be opened: the
  \<^verbatim>\<open>else\<close> of lines 242-245 and the \<^verbatim>\<open>catch\<close> of lines 246-249 show the
  placeholder instead.
  Below, the activity bar has a button for a view container whose composite throws in
  its constructor; a click on it returns normally, no composite is in the new host, no
  method of a composite was called, and the wrapper holds the placeholder.
\<close>

theorem button_of_failing_viewlet_shows_placeholder:
  "buttons (fst (createActivityBar ex_services
      (ex_widget [''workbench.activity.pinnedViewlets2'' \<mapsto> ex_pinned_text]) ex_widget_world))
     = [\<lparr>button_element = 4, aria_label = ''Broken'', target = ''broken.constructor'',
         checked = False\<rparr>,
        \<lparr>button_element = 7, aria_label = ''Search'', target = ''workbench.view.search'',
         checked = False\<rparr>] \<and>
   activates Click \<and>
   fst (dispatch ex_services
      \<lparr>button_element = 4, aria_label = ''Broken'', target = ''broken.constructor'',
        checked = False\<rparr> Click
      (fst (createActivityBar ex_services
         (ex_widget [''workbench.activity.pinnedViewlets2'' \<mapsto> ex_pinned_text])
         ex_widget_world))
      (snd (createActivityBar ex_services
         (ex_widget [''workbench.activity.pinnedViewlets2'' \<mapsto> ex_pinned_text])
         ex_widget_world)))
     = Inr () \<and>
   currentViewletId (fst (snd (dispatch ex_services
      \<lparr>button_element = 4, aria_label = ''Broken'', target = ''broken.constructor'',
        checked = False\<rparr> Click
      (fst (createActivityBar ex_services
         (ex_widget [''workbench.activity.pinnedViewlets2'' \<mapsto> ex_pinned_text])
         ex_widget_world))
      (snd (createActivityBar ex_services
         (ex_widget [''workbench.activity.pinnedViewlets2'' \<mapsto> ex_pinned_text])
         ex_widget_world)))))
     = Some ''broken.constructor'' \<and>
   embeddedHost (fst (snd (dispatch ex_services
      \<lparr>button_element = 4, aria_label = ''Broken'', target = ''broken.constructor'',
        checked = False\<rparr> Click
      (fst (createActivityBar ex_services
         (ex_widget [''workbench.activity.pinnedViewlets2'' \<mapsto> ex_pinned_text])
         ex_widget_world))
      (snd (createActivityBar ex_services
         (ex_widget [''workbench.activity.pinnedViewlets2'' \<mapsto> ex_pinned_text])
         ex_widget_world)))))
     = Some \<lparr>composites = [], currentCompositeId = None, creatingComposites = {},
             container = 10, location = Sidebar\<rparr> \<and>
   calls (snd (snd (dispatch ex_services
      \<lparr>button_element = 4, aria_label = ''Broken'', target = ''broken.constructor'',
        checked = False\<rparr> Click
      (fst (createActivityBar ex_services
         (ex_widget [''workbench.activity.pinnedViewlets2'' \<mapsto> ex_pinned_text])
         ex_widget_world))
      (snd (createActivityBar ex_services
         (ex_widget [''workbench.activity.pinnedViewlets2'' \<mapsto> ex_pinned_text])
         ex_widget_world))))) = [] \<and>
   childNodes_of (snd (snd (dispatch ex_services
      \<lparr>button_element = 4, aria_label = ''Broken'', target = ''broken.constructor'',
        checked = False\<rparr> Click
      (fst (createActivityBar ex_services
         (ex_widget [''workbench.activity.pinnedViewlets2'' \<mapsto> ex_pinned_text])
         ex_widget_world))
      (snd (createActivityBar ex_services
         (ex_widget [''workbench.activity.pinnedViewlets2'' \<mapsto> ex_pinned_text])
         ex_widget_world))))) 10 = Some ex_placeholder_nodes"
proof -
  let ?st = "[''workbench.activity.pinnedViewlets2'' \<mapsto> ex_pinned_text]"
  let ?r = "createActivityBar ex_services (ex_widget ?st) ex_widget_world"
  let ?bB = "\<lparr>button_element = 4, aria_label = ''Broken'', target = ''broken.constructor'',
        checked = False\<rparr>"
  let ?d = "dispatch ex_services ?bB Click (fst ?r) (snd ?r)"
  have 1: "fst ?d = Inr ()"
    and 2: "currentViewletId (fst (snd ?d)) = Some ''broken.constructor''"
    and 3: "embeddedHost (fst (snd ?d)) =
       Some \<lparr>composites = [], currentCompositeId = None, creatingComposites = {},
             container = 10, location = Sidebar\<rparr>"
    and 4: "calls (snd (snd ?d)) = []"
    and 5: "childNodes_of (snd (snd ?d)) 10 = Some ex_placeholder_nodes"
    by (simp_all add: show_defs ex_activity_bar ex_displayed ex_services_sel ex_containers_def
        ex_parseHTML_def ex_defs op_defs)
  show ?thesis using 1 2 3 4 5 by (simp add: ex_activity_bar)
qed

text \<open>
  Claim C9 (pinned items from storage). \<^verbatim>\<open>getPinnedViewletIds\<close> returns the parsed
  array when the value stored under \<^verbatim>\<open>workbench.activity.pinnedViewlets2\<close> parses to
  a non-empty array. It returns the default list when the value does not parse, when it
  parses to anything else, and when the key is absent (the fallback text then parsed is
  that of the empty array). The default list is the five ids explorer, search, scm, debug,
  extensions.
\<close>

theorem pinned_viewlets_from_storage:
  "(\<forall>v xs. st ''workbench.activity.pinnedViewlets2'' = Some v \<and>
       JSON_parse sv v = Some (JArray xs) \<and> xs \<noteq> [] \<longrightarrow>
       getPinnedViewletIds sv st = xs) \<and>
   (\<forall>v. st ''workbench.activity.pinnedViewlets2'' = Some v \<and> JSON_parse sv v = None \<longrightarrow>
       getPinnedViewletIds sv st = default_viewlets) \<and>
   (\<forall>v j. st ''workbench.activity.pinnedViewlets2'' = Some v \<and> JSON_parse sv v = Some j \<and>
       (\<forall>x xs. j \<noteq> JArray (x # xs)) \<longrightarrow>
       getPinnedViewletIds sv st = default_viewlets) \<and>
   (st ''workbench.activity.pinnedViewlets2'' = None \<and>
       JSON_parse sv ''[]'' = Some (JArray []) \<longrightarrow>
       getPinnedViewletIds sv st = default_viewlets) \<and>
   default_viewlets =
     map JString
       [''workbench.view.explorer'', ''workbench.view.search'', ''workbench.view.scm'',
        ''workbench.view.debug'', ''workbench.view.extensions'']"
  by (auto simp: getPinnedViewletIds_def storage_get_def default_viewlets_def
      split: option.splits json.splits list.splits)

theorem pinned_viewlets_from_storage_witness:
  "getPinnedViewletIds ex_services [''workbench.activity.pinnedViewlets2'' \<mapsto> ex_pinned_text]
     = [JString ''workbench.view.scm'', JString ''broken.constructor'',
        JString ''workbench.view.search''] \<and>
   JSON_parse ex_services ''not json'' = None \<and>
   getPinnedViewletIds ex_services [''workbench.activity.pinnedViewlets2'' \<mapsto> ''not json'']
     = default_viewlets \<and>
   JSON_parse ex_services ''{}'' = Some (JObject []) \<and>
   getPinnedViewletIds ex_services [''workbench.activity.pinnedViewlets2'' \<mapsto> ''{}'']
     = default_viewlets \<and>
   JSON_parse ex_services ''[]'' = Some (JArray []) \<and>
   getPinnedViewletIds ex_services Map.empty = default_viewlets"
proof -
  have p: "JSON_parse ex_services ex_pinned_text
      = Some (JArray [JString ''workbench.view.scm'', JString ''broken.constructor'',
                      JString ''workbench.view.search''])"
    "JSON_parse ex_services ''not json'' = None"
    "JSON_parse ex_services ''{}'' = Some (JObject [])"
    "JSON_parse ex_services ''[]'' = Some (JArray [])"
    by (simp_all add: ex_services_def ex_JSON_parse_def ex_pinned_text_def)
  show ?thesis
    using p
      pinned_viewlets_from_storage
        [of "[''workbench.activity.pinnedViewlets2'' \<mapsto> ex_pinned_text]" ex_services]
      pinned_viewlets_from_storage
        [of "[''workbench.activity.pinnedViewlets2'' \<mapsto> ''not json'']" ex_services]
      pinned_viewlets_from_storage
        [of "[''workbench.activity.pinnedViewlets2'' \<mapsto> ''{}'']" ex_services]
      pinned_viewlets_from_storage [of Map.empty ex_services]
    by simp
qed

end
